theory Spec2Isabelle
  imports Main "HOL-Library.Word" "HOL-Library.Sublist"
begin

section \<open>The direct command interface of the DOS emulator (direct.ts)\<close>

text \<open>
  The host code of \<^verbatim>\<open>src/dos/direct/ts/direct.ts\<close> is embedded as functions on one
  explicit state, the \<open>world\<close>: the private fields of \<open>DirectCommandInterface\<close>, the
  slots the host installs on the JavaScript \<open>module\<close> object, the module's byte heap,
  the closure variable \<open>startupErrorLog\<close> of \<open>DosDirect\<close>, the promises the host
  creates, and a trace of everything the host code does to its collaborators (calls
  into the module, callbacks the module makes into host closures, events fired on the
  event bus, promise settlements), in execution order.

  The emulator module is opaque. What it does during a call of one of its entry points
  is an input of the model, a \<open>response\<close>: the callbacks it makes into the host while
  the call is running, and whether the call then returns or throws.
\<close>

subsection \<open>Values, promises and observations\<close>

type_synonym byte = "8 word"

type_synonym pid = nat

text \<open>A thrown JavaScript value: an \<open>Error\<close> with its message.\<close>

datatype exn = Error string

text \<open>
  What a promise of the source is fulfilled with: nothing, the archive of \<open>persist\<close>,
  or the command interface itself (the handshake promise of \<open>DosDirect\<close>).
\<close>

datatype val = Undefined | Archive "byte list" | Interface

datatype pstate = Pending | Fulfilled val | Rejected exn

text \<open>
  The one reaction the source registers with \<open>then\<close>:
  \<^verbatim>\<open>.then(() => { this.events().fireExit(); })\<close>, with the promise \<open>then\<close> returned.
\<close>

datatype reaction = ThenFireExit pid

type_synonym job = "reaction \<times> pstate"

text \<open>
  Entry points of the module that the host calls. Key codes, coordinates and times are
  JavaScript numbers, taken as integers.
\<close>

datatype mcall =
    Instantiate
  | CallMain
  | RunRuntime
  | GetFrameWidth
  | GetFrameHeight
  | GetFrameRgba
  | AddKey int bool int
  | MouseMove int int int
  | MouseButton int bool int
  | PackFsToBundle
  | RequestExit

text \<open>
  Slots of the module object that the module invokes. The arguments of a diagnostic
  call (\<open>log\<close>, \<open>print\<close>, \<open>warn\<close>, \<open>err\<close>, \<open>printErr\<close>) are represented by
  their serialisation \<^verbatim>\<open>JSON.stringify(args)\<close>. \<open>CbOnFrame ptr w h\<close> is
  \<^verbatim>\<open>module.onFrame(ptr)\<close> made while the module answers \<open>w\<close> and \<open>h\<close> to the
  width and height queries. The sound and stdout slots carry no claim and are left out.
\<close>

datatype callback =
    CbLog string
  | CbPrint string
  | CbWarn string
  | CbErr string
  | CbPrintErr string
  | CbOnFrameSize nat nat
  | CbOnFrame nat nat nat
  | CbOnSoundInit int
  | CbPersist "byte list"
  | CbExit

datatype outcome = Returns | Throws exn

type_synonym response = "callback list \<times> outcome"

datatype level = LogLevel | WarnLevel | ErrorLevel

text \<open>
  A byte array of the host is a typed array on a buffer. \<open>View off n\<close> lies on the
  module's own buffer \<^verbatim>\<open>module.HEAPU8.buffer\<close>, from byte offset \<open>off\<close>, \<open>n\<close> bytes
  long: its content is whatever the module's heap holds there. \<open>Own bs\<close> lies on a
  buffer of its own, as \<^verbatim>\<open>slice\<close> returns it.
\<close>

datatype u8array = View nat nat | Own "byte list"

text \<open>
  Modelled from the spec: the event bus (\<open>CommandInterfaceEventsImpl\<close>, imported from
  \<^verbatim>\<open>impl/ci-impl\<close>, is not among the sources). Firing dispatches synchronously and
  nothing is buffered, so the bus is the sequence of events fired on it. Subscribers
  observe: they neither throw nor call the interface while an event is dispatched.
\<close>

datatype event =
    Message level string
  | FrameSize nat nat
  | Frame u8array
  | ExitEvent

text \<open>What the trace records, each entry at the moment the source does it.\<close>

datatype obs =
    Call mcall
  | Callback callback
  | Console string
  | Bus event
  | Settled pid pstate

text \<open>The two values of \<open>module.err\<close> and \<open>module.printErr\<close>: \<open>startupErrFn\<close>, \<open>errFn\<close>.\<close>

datatype sink = StartupErrFn | ErrFn

text \<open>
  The fields \<open>startedAt\<close> to \<open>keyMatrix\<close> are those of \<open>DirectCommandInterface\<close>.
  \<open>wired\<close> says that the constructor has installed the frame and sound slots;
  \<open>mod_persist\<close> and \<open>mod_exit\<close> are the slots \<open>module.persist\<close> and \<open>module.exit\<close>,
  each holding the promise its function resolves; \<open>mod_err\<close> is the error sink;
  \<open>HEAPU8\<close> is the module's memory. \<open>pstates\<close> holds the state of every promise
  created so far, \<open>fresh\<close> is the next promise to create, \<open>reacts\<close> the reactions
  waiting on pending promises and \<open>jobs\<close> the microtask queue.
\<close>

record world =
  startedAt :: int
  persistPromise :: "pid option"
  exitPromise :: "pid option"
  freq :: int
  keyMatrix :: "int \<rightharpoonup> bool"
  wired :: bool
  mod_persist :: "pid option"
  mod_exit :: "pid option"
  mod_err :: sink
  HEAPU8 :: "byte list"
  startupErrorLog :: string
  pstates :: "pid \<rightharpoonup> pstate"
  reacts :: "(pid \<times> reaction) list"
  fresh :: pid
  jobs :: "job list"
  trace :: "obs list"

definition observe :: "obs \<Rightarrow> world \<Rightarrow> world" where
  "observe x w = w\<lparr>trace := trace w @ [x]\<rparr>"

primrec calls :: "obs list \<Rightarrow> mcall list" where
  "calls [] = []"
| "calls (x # xs) = (case x of Call c \<Rightarrow> c # calls xs | _ \<Rightarrow> calls xs)"

primrec fired :: "obs list \<Rightarrow> event list" where
  "fired [] = []"
| "fired (x # xs) = (case x of Bus e \<Rightarrow> e # fired xs | _ \<Rightarrow> fired xs)"

text \<open>The calls the module has received, in the order it received them.\<close>

definition forwarded :: "world \<Rightarrow> mcall list" where
  "forwarded w = calls (trace w)"

subsection \<open>Input state tracker\<close>

text \<open>\<^verbatim>\<open>this.keyMatrix[keyCode] === true\<close>: a code absent from the matrix is released.\<close>

definition keyPressed :: "world \<Rightarrow> int \<Rightarrow> bool" where
  "keyPressed w keyCode = (keyMatrix w keyCode = Some True)"

definition addKey :: "int \<Rightarrow> bool \<Rightarrow> int \<Rightarrow> world \<Rightarrow> world" where
  "addKey keyCode pressed timeMs w =
     (if keyPressed w keyCode = pressed then w
      else observe (Call (AddKey keyCode pressed timeMs))
             (w\<lparr>keyMatrix := (keyMatrix w)(keyCode \<mapsto> pressed)\<rparr>))"

text \<open>
  The argument \<open>now\<close> of a host call is what \<^verbatim>\<open>Date.now()\<close> returns during it. The
  key and mouse entry points of the module are taken to return without calling back.
\<close>

definition sendKeyEvent :: "int \<Rightarrow> bool \<Rightarrow> int \<Rightarrow> world \<Rightarrow> world" where
  "sendKeyEvent keyCode pressed now w = addKey keyCode pressed (now - startedAt w) w"

definition simulateKeyPress :: "int list \<Rightarrow> int \<Rightarrow> world \<Rightarrow> world" where
  "simulateKeyPress keyCodes now w =
     (let timeMs = now - startedAt w;
          w1 = fold (\<lambda>keyCode. addKey keyCode True timeMs) keyCodes w
      in fold (\<lambda>keyCode. addKey keyCode False (timeMs + 16)) keyCodes w1)"

definition sendMouseMotion :: "int \<Rightarrow> int \<Rightarrow> int \<Rightarrow> world \<Rightarrow> world" where
  "sendMouseMotion x y now w = observe (Call (MouseMove x y (now - startedAt w))) w"

definition sendMouseButton :: "int \<Rightarrow> bool \<Rightarrow> int \<Rightarrow> world \<Rightarrow> world" where
  "sendMouseButton button pressed now w =
     observe (Call (MouseButton button pressed (now - startedAt w))) w"

text \<open>A sequence of \<open>sendKeyEvent\<close> calls, each with its code, state and clock reading.\<close>

definition sendKeyEvents :: "(int \<times> bool \<times> int) list \<Rightarrow> world \<Rightarrow> world" where
  "sendKeyEvents cs w = fold (\<lambda>(keyCode, pressed, now). sendKeyEvent keyCode pressed now) cs w"

text \<open>
  The spec's "last distinct state per code": the state of the last call of the sequence
  that names the code, if any call does.
\<close>

fun last_sent :: "(int \<times> bool \<times> int) list \<Rightarrow> int \<Rightarrow> bool option" where
  "last_sent [] k = None"
| "last_sent ((keyCode, pressed, now) # cs) k =
     (case last_sent cs k of
        Some p \<Rightarrow> Some p
      | None \<Rightarrow> if keyCode = k then Some pressed else None)"

text \<open>The key and mouse commands of the host, and a run of them with their clock readings.\<close>

datatype input =
    SendKeyEvent int bool
  | SimulateKeyPress "int list"
  | SendMouseMotion int int
  | SendMouseButton int bool

fun host_call :: "input \<Rightarrow> int \<Rightarrow> world \<Rightarrow> world" where
  "host_call (SendKeyEvent keyCode pressed) now w = sendKeyEvent keyCode pressed now w"
| "host_call (SimulateKeyPress keyCodes) now w = simulateKeyPress keyCodes now w"
| "host_call (SendMouseMotion x y) now w = sendMouseMotion x y now w"
| "host_call (SendMouseButton button pressed) now w = sendMouseButton button pressed now w"

definition run_inputs :: "(input \<times> int) list \<Rightarrow> world \<Rightarrow> world" where
  "run_inputs cs w = fold (\<lambda>(c, now). host_call c now) cs w"

text \<open>The timestamp a forwarded key or mouse event carries.\<close>

fun stamp :: "mcall \<Rightarrow> int option" where
  "stamp (AddKey keyCode pressed timeMs) = Some timeMs"
| "stamp (MouseMove x y timeMs) = Some timeMs"
| "stamp (MouseButton button pressed timeMs) = Some timeMs"
| "stamp _ = None"

definition stamps :: "mcall list \<Rightarrow> int list" where
  "stamps cs = List.map_filter stamp cs"

text \<open>The events a run of commands adds to what the module had received before it.\<close>

definition issued :: "(input \<times> int) list \<Rightarrow> world \<Rightarrow> mcall list" where
  "issued cs w = drop (length (forwarded w)) (forwarded (run_inputs cs w))"

text \<open>
  What the input methods forward, read off the source. \<open>passed p st ks\<close> are the codes
  of \<open>ks\<close> for which \<open>addKey\<close> forwards an event when the codes are added in order with
  state \<open>p\<close>, from a matrix in which \<open>st\<close> tells the pressed codes: a code is passed
  unless the matrix already records it in state \<open>p\<close>.
\<close>

fun passed :: "bool \<Rightarrow> (int \<Rightarrow> bool) \<Rightarrow> int list \<Rightarrow> int list" where
  "passed p st [] = []"
| "passed p st (k # ks) = (if st k = p then passed p st ks else k # passed p (st(k := p)) ks)"

text \<open>
  The events one command forwards when it is issued at relative time \<open>t\<close> (the clock
  reading minus \<open>startedAt\<close>) on a matrix in which \<open>st\<close> tells the pressed codes, and
  the pressed codes after it.
\<close>

fun emitted :: "input \<Rightarrow> int \<Rightarrow> (int \<Rightarrow> bool) \<Rightarrow> mcall list" where
  "emitted (SendKeyEvent keyCode pressed) t st =
     (if st keyCode = pressed then [] else [AddKey keyCode pressed t])"
| "emitted (SimulateKeyPress keyCodes) t st =
     map (\<lambda>k. AddKey k True t) (passed True st keyCodes)
     @ map (\<lambda>k. AddKey k False (t + 16)) (passed False (\<lambda>k. k \<in> set keyCodes \<or> st k) keyCodes)"
| "emitted (SendMouseMotion x y) t st = [MouseMove x y t]"
| "emitted (SendMouseButton button pressed) t st = [MouseButton button pressed t]"

fun pressed_after :: "input \<Rightarrow> (int \<Rightarrow> bool) \<Rightarrow> int \<Rightarrow> bool" where
  "pressed_after (SendKeyEvent keyCode pressed) st = st(keyCode := pressed)"
| "pressed_after (SimulateKeyPress keyCodes) st = (\<lambda>k. k \<notin> set keyCodes \<and> st k)"
| "pressed_after (SendMouseMotion x y) st = st"
| "pressed_after (SendMouseButton button pressed) st = st"

text \<open>
  Clock readings that never go back, and that leave the 16 time units a
  \<open>simulateKeyPress\<close> adds to its releases before the next command reads the clock.
\<close>

fun lead :: "input \<Rightarrow> int" where
  "lead (SimulateKeyPress keyCodes) = 16"
| "lead _ = 0"

fun spaced :: "(input \<times> int) list \<Rightarrow> bool" where
  "spaced [] = True"
| "spaced [c] = True"
| "spaced ((c, t) # (c', t') # cs) = (t + lead c \<le> t' \<and> spaced ((c', t') # cs))"

text \<open>A world for examples: nothing pressed, nothing requested, started at time 0.\<close>

definition blank :: world where
  "blank = \<lparr>startedAt = 0, persistPromise = None, exitPromise = None, freq = 0,
     keyMatrix = Map.empty, wired = True, mod_persist = None, mod_exit = None,
     mod_err = ErrFn, HEAPU8 = [], startupErrorLog = [], pstates = Map.empty,
     reacts = [], fresh = 0, jobs = [], trace = []\<rparr>"

subsection \<open>Screenshot\<close>

text \<open>What a byte array holds in a given world.\<close>

fun bytes_of :: "world \<Rightarrow> u8array \<Rightarrow> byte list" where
  "bytes_of w (View off n) = take n (drop off (HEAPU8 w))"
| "bytes_of w (Own bs) = bs"

text \<open>\<^verbatim>\<open>new ImageData(rgba, width, height)\<close> keeps the array it is given as its data.\<close>

record image_data =
  data :: u8array
  width :: nat
  height :: nat

text \<open>
  \<^verbatim>\<open>for (let next = 3; next < rgba.byteLength; next = next + 4) { rgba[next] = 255; }\<close>
  on an array \<open>rgba\<close> that lies on the module's heap at \<open>off\<close>, \<open>len\<close> bytes long.
\<close>

function fill_alpha :: "nat \<Rightarrow> nat \<Rightarrow> nat \<Rightarrow> byte list \<Rightarrow> byte list" where
  "fill_alpha off len next heap =
     (if next < len then fill_alpha off len (next + 4) (heap[off + next := 255]) else heap)"
  by pat_completeness auto
termination
  by (relation "measure (\<lambda>(off, len, next, heap). len - next)") auto

declare fill_alpha.simps [simp del]

text \<open>
  \<open>screenshot\<close>, with the module's answers to the width, height and frame pointer
  queries as arguments. The typed array constructor throws a \<open>RangeError\<close> when the
  requested bytes do not lie within the buffer, and the \<open>ImageData\<close> constructor throws
  on data of length zero. The result \<open>Inl\<close> is a throw of \<open>screenshot\<close> itself; on
  \<open>Inr\<close> the promise it returns is already fulfilled with the image.
\<close>

definition screenshot :: "nat \<Rightarrow> nat \<Rightarrow> nat \<Rightarrow> world \<Rightarrow> (exn + image_data) \<times> world" where
  "screenshot wd ht rgbaPtr w =
     (let w1 = observe (Call GetFrameRgba)
                 (observe (Call GetFrameHeight) (observe (Call GetFrameWidth) w));
          len = wd * ht * 4
      in if length (HEAPU8 w1) < rgbaPtr + len then (Inl (Error ''RangeError''), w1)
         else
           let rgba = View rgbaPtr len;
               w2 = w1\<lparr>HEAPU8 := fill_alpha rgbaPtr len 3 (HEAPU8 w1)\<rparr>
           in if len = 0 then (Inl (Error ''InvalidStateError''), w2)
              else (Inr \<lparr>data = rgba, width = wd, height = ht\<rparr>, w2))"

text \<open>The pixel data of an image, read in a given world.\<close>

definition pixels :: "world \<Rightarrow> image_data \<Rightarrow> byte list" where
  "pixels w img = bytes_of w (data img)"

text \<open>The module writing one byte of its own memory, as it does when it renders.\<close>

definition module_store :: "nat \<Rightarrow> byte \<Rightarrow> world \<Rightarrow> world" where
  "module_store addr b w = w\<lparr>HEAPU8 := (HEAPU8 w)[addr := b]\<rparr>"

subsection \<open>Promises\<close>

definition new_promise :: "world \<Rightarrow> pid \<times> world" where
  "new_promise w =
     (fresh w, w\<lparr>pstates := (pstates w)(fresh w \<mapsto> Pending), fresh := Suc (fresh w)\<rparr>)"

text \<open>
  Resolving or rejecting a promise: only a pending promise changes, and its reactions
  become jobs of the microtask queue.
\<close>

definition settle :: "pid \<Rightarrow> pstate \<Rightarrow> world \<Rightarrow> world" where
  "settle p st w =
     (case pstates w p of
        Some Pending \<Rightarrow>
          observe (Settled p st)
            (w\<lparr>pstates := (pstates w)(p \<mapsto> st),
               jobs := jobs w @ map (\<lambda>pr. (snd pr, st)) (filter (\<lambda>pr. fst pr = p) (reacts w)),
               reacts := filter (\<lambda>pr. fst pr \<noteq> p) (reacts w)\<rparr>)
      | _ \<Rightarrow> w)"

text \<open>\<^verbatim>\<open>p.then(() => { this.events().fireExit(); })\<close>: the promise it returns.\<close>

definition then_fireExit :: "pid \<Rightarrow> world \<Rightarrow> pid \<times> world" where
  "then_fireExit p w =
     (let (q, w1) = new_promise w
      in case pstates w1 p of
           Some Pending \<Rightarrow> (q, w1\<lparr>reacts := reacts w1 @ [(p, ThenFireExit q)]\<rparr>)
         | Some st \<Rightarrow> (q, w1\<lparr>jobs := jobs w1 @ [(ThenFireExit q, st)]\<rparr>)
         | None \<Rightarrow> (q, w1))"

definition fireExit :: "world \<Rightarrow> world" where
  "fireExit w = observe (Bus ExitEvent) w"

fun run_job :: "job \<Rightarrow> world \<Rightarrow> world" where
  "run_job (ThenFireExit q, Fulfilled v) w = settle q (Fulfilled Undefined) (fireExit w)"
| "run_job (ThenFireExit q, Rejected e) w = settle q (Rejected e) w"
| "run_job (ThenFireExit q, Pending) w = w"

text \<open>One job of the microtask queue, and the queue run until it is empty.\<close>

definition microtask :: "world \<Rightarrow> world" where
  "microtask w = (case jobs w of [] \<Rightarrow> w | j # js \<Rightarrow> run_job j (w\<lparr>jobs := js\<rparr>))"

lemma settle_measure:
  "length (jobs (settle p st w)) + length (reacts (settle p st w)) =
   length (jobs w) + length (reacts w)"
proof -
  have "length (filter (\<lambda>pr. fst pr = p) (reacts w)) + length (filter (\<lambda>pr. fst pr \<noteq> p) (reacts w))
      = length (reacts w)"
    using sum_length_filter_compl [of "\<lambda>pr. fst pr = p" "reacts w"] by simp
  then show ?thesis
    by (simp add: settle_def observe_def split: option.splits pstate.splits)
qed

lemma microtask_measure:
  "jobs w \<noteq> [] \<Longrightarrow>
   length (jobs (microtask w)) + length (reacts (microtask w)) < length (jobs w) + length (reacts w)"
proof -
  assume "jobs w \<noteq> []"
  then obtain j js where js: "jobs w = j # js" by (cases "jobs w") auto
  obtain q st where j: "j = (ThenFireExit q, st)" by (cases j) (metis reaction.exhaust)
  show ?thesis
    by (cases st) (simp_all add: microtask_def js j settle_measure fireExit_def observe_def)
qed

function drain :: "world \<Rightarrow> world" where
  "drain w = (if jobs w = [] then w else drain (microtask w))"
  by pat_completeness auto
termination
  by (relation "measure (\<lambda>w. length (jobs w) + length (reacts w))")
    (simp_all add: microtask_measure)

declare drain.simps [simp del]

subsection \<open>Callbacks of the module\<close>

definition fireMessage :: "level \<Rightarrow> string \<Rightarrow> world \<Rightarrow> world" where
  "fireMessage lv args w = observe (Bus (Message lv args)) w"

text \<open>
  \<open>startupErrFn\<close> and \<open>errFn\<close>, whichever \<open>module.err\<close> and \<open>module.printErr\<close>
  hold (the source always assigns the two together).
\<close>

definition err_sink :: "string \<Rightarrow> world \<Rightarrow> world" where
  "err_sink args w =
     (case mod_err w of
        StartupErrFn \<Rightarrow>
          (let w1 = fireMessage ErrorLevel args (observe (Console args) w)
           in w1\<lparr>startupErrorLog := startupErrorLog w1 @ args @ [CHR 0x0A]\<rparr>)
      | ErrFn \<Rightarrow> fireMessage ErrorLevel args w)"

text \<open>
  A slot can be invoked once the host has installed it: the sinks from the start, the
  frame and sound slots from the constructor on, \<open>module.persist\<close> and \<open>module.exit\<close>
  from the first \<open>persist()\<close> and \<open>exit()\<close> on (\<open>module.persist\<close> deletes itself when
  it runs).
\<close>

fun installed :: "world \<Rightarrow> callback \<Rightarrow> bool" where
  "installed w (CbOnFrameSize wd ht) = wired w"
| "installed w (CbOnFrame ptr wd ht) = wired w"
| "installed w (CbOnSoundInit f) = wired w"
| "installed w (CbPersist archive) = (mod_persist w \<noteq> None)"
| "installed w CbExit = (mod_exit w \<noteq> None)"
| "installed w _ = True"

fun handler :: "callback \<Rightarrow> world \<Rightarrow> world" where
  "handler (CbLog args) w = fireMessage LogLevel args w"
| "handler (CbPrint args) w = fireMessage LogLevel args w"
| "handler (CbWarn args) w = fireMessage WarnLevel args w"
| "handler (CbErr args) w = err_sink args w"
| "handler (CbPrintErr args) w = err_sink args w"
| "handler (CbOnFrameSize wd ht) w = observe (Bus (FrameSize wd ht)) w"
| "handler (CbOnFrame rgbaPtr wd ht) w =
     (let w1 = observe (Call GetFrameHeight) (observe (Call GetFrameWidth) w);
          rgba = Own (take (wd * ht * 4) (drop rgbaPtr (HEAPU8 w1)))
      in observe (Bus (Frame rgba)) w1)"
| "handler (CbOnSoundInit f) w = w\<lparr>freq := f\<rparr>"
| "handler (CbPersist archive) w =
     (case mod_persist w of
        None \<Rightarrow> w
      | Some p \<Rightarrow> (settle p (Fulfilled (Archive archive)) w)\<lparr>mod_persist := None\<rparr>)"
| "handler CbExit w =
     (case mod_exit w of
        None \<Rightarrow> w
      | Some p \<Rightarrow> settle p (Fulfilled Undefined) w)"

text \<open>
  The module invoking a slot. Invoking a slot that holds nothing raises inside the
  module and runs no host code.
\<close>

definition invoke :: "callback \<Rightarrow> world \<Rightarrow> world" where
  "invoke cb w = (if installed w cb then handler cb (observe (Callback cb) w) else w)"

text \<open>A call of an entry point of the module, with what the module does during it.\<close>

definition module_call :: "mcall \<Rightarrow> response \<Rightarrow> world \<Rightarrow> outcome \<times> world" where
  "module_call c r w = (snd r, fold invoke (fst r) (observe (Call c) w))"

subsection \<open>Lifecycle\<close>

definition persist :: "response \<Rightarrow> world \<Rightarrow> pid \<times> world" where
  "persist r w =
     (case persistPromise w of
        Some p \<Rightarrow> (p, w)
      | None \<Rightarrow>
          (let (p, w1) = new_promise w;
               w2 = w1\<lparr>mod_persist := Some p\<rparr>;
               (res, w3) = module_call PackFsToBundle r w2;
               w4 = (case res of Throws e \<Rightarrow> settle p (Rejected e) w3 | Returns \<Rightarrow> w3)
           in (p, w4\<lparr>persistPromise := Some p\<rparr>)))"

definition exit :: "response \<Rightarrow> world \<Rightarrow> pid \<times> world" where
  "exit r w =
     (case exitPromise w of
        Some q \<Rightarrow> (q, w)
      | None \<Rightarrow>
          (let (p, w1) = new_promise w;
               w2 = w1\<lparr>mod_exit := Some p\<rparr>;
               (res, w3) = module_call RequestExit r w2;
               w4 = (case res of Throws e \<Rightarrow> settle p (Rejected e) w3 | Returns \<Rightarrow> w3);
               (q, w5) = then_fireExit p w4
           in (q, w5\<lparr>exitPromise := Some q\<rparr>)))"

subsection \<open>Startup handshake\<close>

text \<open>The \<open>module\<close> object literal of \<open>DosDirect\<close>, on a module with the given heap.\<close>

definition module_init :: "byte list \<Rightarrow> world" where
  "module_init heap = \<lparr>startedAt = 0, persistPromise = None, exitPromise = None, freq = 0,
     keyMatrix = Map.empty, wired = False, mod_persist = None, mod_exit = None,
     mod_err = StartupErrFn, HEAPU8 = heap, startupErrorLog = [], pstates = Map.empty,
     reacts = [], fresh = 0, jobs = [], trace = []\<rparr>"

text \<open>
  The constructor: the field initialisers, the frame and sound slots, \<open>callMain\<close>,
  \<open>ready(this)\<close> (which resolves the handshake promise \<open>ready\<close>) and \<open>_runRuntime\<close>.
  \<open>Inl\<close> is a throw of the constructor.
\<close>

definition DirectCommandInterface ::
    "int \<Rightarrow> response \<Rightarrow> response \<Rightarrow> pid \<Rightarrow> world \<Rightarrow> (exn + unit) \<times> world" where
  "DirectCommandInterface now on_main on_run ready w =
     (let w1 = w\<lparr>startedAt := now, persistPromise := None, exitPromise := None, freq := 0,
                 keyMatrix := Map.empty, wired := True\<rparr>;
          (res1, w2) = module_call CallMain on_main w1
      in case res1 of
           Throws e \<Rightarrow> (Inl e, w2)
         | Returns \<Rightarrow>
             (let w3 = settle ready (Fulfilled Interface) w2;
                  (res2, w4) = module_call RunRuntime on_run w3
              in case res2 of Throws e \<Rightarrow> (Inl e, w4) | Returns \<Rightarrow> (Inr (), w4)))"

text \<open>
  What the module does during the handshake: during \<open>wasm.instantiate\<close>, \<open>callMain\<close>,
  \<open>_runRuntime\<close> and \<open>_requestExit\<close>, and in its later turns, one list of callbacks
  for each turn.
\<close>

record startup =
  on_instantiate :: response
  on_callMain :: response
  on_runRuntime :: response
  on_requestExit :: response
  afterwards :: "callback list list"

text \<open>
  \<open>DosDirect\<close> up to the handshake promise: \<open>Inl\<close> when \<open>wasm.instantiate\<close> rejects,
  otherwise the handshake promise, resolved by \<open>ready\<close> or rejected by the \<open>catch\<close>
  around the constructor, whichever came first.
\<close>

definition boot :: "int \<Rightarrow> byte list \<Rightarrow> startup \<Rightarrow> (exn + pid) \<times> world" where
  "boot now heap s =
     (let (res0, w1) = module_call Instantiate (on_instantiate s) (module_init heap)
      in case res0 of
           Throws e \<Rightarrow> (Inl e, w1)
         | Returns \<Rightarrow>
             (let (ci, w2) = new_promise w1;
                  (res, w3) = DirectCommandInterface now (on_callMain s) (on_runRuntime s) ci w2
              in case res of
                   Inl e \<Rightarrow> (Inr ci, settle ci (Rejected e) w3)
                 | Inr u \<Rightarrow> (Inr ci, w3)))"

text \<open>The promise \<open>DosDirect\<close> returns: fulfilled with the interface, rejected, or pending.\<close>

datatype result = Ready | Failed exn | Suspended

text \<open>
  \<^verbatim>\<open>await ci.exit(); throw new Error(startupErrorLog);\<close> while the module takes its
  later turns, the microtask queue running after each.
\<close>

fun await_exit :: "pid \<Rightarrow> callback list list \<Rightarrow> world \<Rightarrow> result \<times> world" where
  "await_exit q [] w =
     (case pstates w q of
        Some (Fulfilled v) \<Rightarrow> (Failed (Error (startupErrorLog w)), w)
      | Some (Rejected e) \<Rightarrow> (Failed e, w)
      | _ \<Rightarrow> (Suspended, w))"
| "await_exit q (t # ts) w =
     (case pstates w q of
        Some (Fulfilled v) \<Rightarrow> (Failed (Error (startupErrorLog w)), w)
      | Some (Rejected e) \<Rightarrow> (Failed e, w)
      | _ \<Rightarrow> await_exit q ts (drain (fold invoke t w)))"

definition DosDirect :: "int \<Rightarrow> byte list \<Rightarrow> startup \<Rightarrow> result \<times> world" where
  "DosDirect now heap s =
     (case boot now heap s of
        (Inl e, w) \<Rightarrow> (Failed e, w)
      | (Inr ci, w) \<Rightarrow>
          (let w1 = drain w
           in case pstates w1 ci of
                Some (Fulfilled v) \<Rightarrow>
                  if length (startupErrorLog w1) > 0 then
                    (let (q, w2) = exit (on_requestExit s) w1
                     in await_exit q (afterwards s) (drain w2))
                  else (Ready, w1\<lparr>mod_err := ErrFn\<rparr>)
              | Some (Rejected e) \<Rightarrow> (Failed e, w1)
              | _ \<Rightarrow> (Suspended, w1)))"

subsection \<open>Runs of an interface\<close>

text \<open>
  Everything that can happen to an interface: the host calls one of its methods, the
  module takes a turn and invokes slots, or a job of the microtask queue runs.
\<close>

datatype action =
    Input input int
  | Screenshot nat nat nat
  | Persist response
  | Exit response
  | Tick "callback list"
  | Microtask

fun step :: "action \<Rightarrow> world \<Rightarrow> world" where
  "step (Input c now) w = host_call c now w"
| "step (Screenshot wd ht rgbaPtr) w = snd (screenshot wd ht rgbaPtr w)"
| "step (Persist r) w = snd (persist r w)"
| "step (Exit r) w = snd (exit r w)"
| "step (Tick cbs) w = fold invoke cbs w"
| "step Microtask w = microtask w"

definition run :: "action list \<Rightarrow> world \<Rightarrow> world" where
  "run acts w = fold step acts w"

text \<open>
  The worlds an interface can be in: those the handshake leaves once the constructor
  has signalled readiness, and those any run leads to from there, the swap of the error
  sinks at the end of the handshake included.
\<close>

inductive reachable :: "world \<Rightarrow> bool" where
  booted: "boot now heap s = (Inr ci, w) \<Longrightarrow> pstates w ci = Some (Fulfilled Interface)
     \<Longrightarrow> reachable w"
| stepped: "reachable w \<Longrightarrow> reachable (step a w)"
| swapped: "reachable w \<Longrightarrow> reachable (w\<lparr>mod_err := ErrFn\<rparr>)"

text \<open>The diagnostics the module has emitted through the error sinks, in emission order.\<close>

fun diagnostics :: "obs list \<Rightarrow> string list" where
  "diagnostics [] = []"
| "diagnostics (Callback (CbErr args) # xs) = args # diagnostics xs"
| "diagnostics (Callback (CbPrintErr args) # xs) = args # diagnostics xs"
| "diagnostics (x # xs) = diagnostics xs"

text \<open>Every occurrence of \<open>b\<close> in a trace comes after an occurrence of \<open>a\<close>.\<close>

fun preceded :: "'a \<Rightarrow> 'a \<Rightarrow> 'a list \<Rightarrow> bool" where
  "preceded a b [] = True"
| "preceded a b (x # xs) = (if x = a then True else x \<noteq> b \<and> preceded a b xs)"

text \<open>
  What holds of every world an interface can be in. The promises the module can settle
  through its slots, and the promise \<open>exit()\<close> returns, have been allocated and are
  distinct; reactions wait on the promise of \<open>module.exit\<close> only, and they and the jobs
  of the queue lead to the promise \<open>exit()\<close> returned; a job carries a fulfilment only
  once the module has invoked \<open>module.exit\<close>; and the trace is ordered: the termination
  callback before an exit event, an exit event before the fulfilment of the promise of
  \<open>exit()\<close>.
\<close>

definition sound :: "world \<Rightarrow> bool" where
  "sound w \<longleftrightarrow>
     (\<forall>p. mod_persist w = Some p \<longrightarrow> p < fresh w)
   \<and> (\<forall>p. mod_exit w = Some p \<longrightarrow> p < fresh w \<and> mod_persist w \<noteq> Some p)
   \<and> (\<forall>q. exitPromise w = Some q \<longrightarrow>
         q < fresh w \<and> mod_persist w \<noteq> Some q \<and> mod_exit w \<noteq> Some q)
   \<and> (\<forall>pr \<in> set (reacts w). mod_exit w = Some (fst pr)
         \<and> (\<exists>q. snd pr = ThenFireExit q \<and> exitPromise w = Some q))
   \<and> (\<forall>j \<in> set (jobs w). (\<exists>q. fst j = ThenFireExit q \<and> exitPromise w = Some q)
         \<and> (\<forall>v. snd j = Fulfilled v \<longrightarrow> Callback CbExit \<in> set (trace w)))
   \<and> (\<forall>p st. Settled p st \<in> set (trace w) \<longrightarrow> p < fresh w)
   \<and> preceded (Callback CbExit) (Bus ExitEvent) (trace w)
   \<and> (\<forall>q v. exitPromise w = Some q \<longrightarrow>
         preceded (Bus ExitEvent) (Settled q (Fulfilled v)) (trace w))
   \<and> (exitPromise w = None \<longrightarrow> Bus ExitEvent \<notin> set (trace w))
   \<and> (\<forall>p v. mod_exit w = Some p \<longrightarrow> pstates w p = Some (Fulfilled v) \<longrightarrow>
         Callback CbExit \<in> set (trace w))
   \<and> (\<forall>q v. exitPromise w = Some q \<longrightarrow> pstates w q = Some (Fulfilled v) \<longrightarrow>
         Bus ExitEvent \<in> set (trace w))"

subsection \<open>Example worlds\<close>

text \<open>A module whose heap holds one pixel with alpha 0, at address 0.\<close>

definition frame1 :: world where
  "frame1 = blank\<lparr>HEAPU8 := [1, 2, 3, 0]\<rparr>"

text \<open>A module that stays silent during the handshake, and the interface it gives.\<close>

definition quiet :: startup where
  "quiet = \<lparr>on_instantiate = ([], Returns), on_callMain = ([], Returns),
     on_runRuntime = ([], Returns), on_requestExit = ([], Returns), afterwards = []\<rparr>"

definition started :: world where
  "started = snd (boot 0 [] quiet)"

text \<open>
  That interface after \<open>exit()\<close>, the module invoking \<open>module.exit\<close> in a later turn,
  and one job of the microtask queue.
\<close>

definition exited :: world where
  "exited = run [Exit ([], Returns), Tick [CbExit], Microtask] started"

subsection \<open>Notions the properties are stated with\<close>

text \<open>The lifecycle requests among the calls the module receives.\<close>

definition lifecycle :: "mcall \<Rightarrow> bool" where
  "lifecycle c \<longleftrightarrow> c = PackFsToBundle \<or> c = RequestExit"

text \<open>The slots the module has invoked, in order.\<close>

primrec invoked :: "obs list \<Rightarrow> callback list" where
  "invoked [] = []"
| "invoked (x # xs) = (case x of Callback c \<Rightarrow> c # invoked xs | _ \<Rightarrow> invoked xs)"

text \<open>
  An interface whose \<open>exit()\<close> has failed: the promise \<open>q\<close> it returned is rejected with
  \<open>e\<close>, or is about to be by the one job of the queue, and no exit event has been fired.
\<close>

definition exit_failed :: "exn \<Rightarrow> pid \<Rightarrow> world \<Rightarrow> bool" where
  "exit_failed e q w \<longleftrightarrow>
     exitPromise w = Some q \<and> Bus ExitEvent \<notin> set (trace w) \<and> reacts w = []
     \<and> (jobs w = [(ThenFireExit q, Rejected e)] \<and> pstates w q = Some Pending
        \<or> jobs w = [] \<and> pstates w q = Some (Rejected e))"

text \<open>
  The text of the startup error: every diagnostic emitted so far, each followed by a
  newline, in emission order.
\<close>

definition startup_message :: "world \<Rightarrow> string" where
  "startup_message w = concat (map (\<lambda>args. args @ [CHR 0x0A]) (diagnostics (trace w)))"

text \<open>While \<open>startupErrFn\<close> is the error sink, the startup error log is that text.\<close>

definition logged :: "world \<Rightarrow> bool" where
  "logged w \<longleftrightarrow> mod_err w = StartupErrFn \<and> startupErrorLog w = startup_message w"

subsection \<open>More example worlds\<close>

text \<open>
  Two modules that print one diagnostic, the serialised argument list \<open>[1]\<close>, during
  \<open>callMain\<close>: one confirms termination during \<open>_requestExit\<close>, the other throws there.
\<close>

definition noisy :: startup where
  "noisy = quiet\<lparr>on_callMain := ([CbErr ''[1]''], Returns),
     on_requestExit := ([CbExit], Returns)\<rparr>"

definition stubborn :: startup where
  "stubborn = quiet\<lparr>on_callMain := ([CbErr ''[1]''], Returns),
     on_requestExit := ([], Throws (Error ''abort''))\<rparr>"


section \<open>Properties\<close>

subsection \<open>The trace\<close>

lemma calls_append: "calls (xs @ ys) = calls xs @ calls ys"
  by (induction xs) (auto split: obs.splits)

lemma fired_append: "fired (xs @ ys) = fired xs @ fired ys"
  by (induction xs) (auto split: obs.splits)

lemma forwarded_observe:
  "forwarded (observe x w) = forwarded w @ calls [x]"
  by (simp add: forwarded_def observe_def calls_append)

lemma addKey_forwarded:
  "forwarded (addKey k p t w) =
     forwarded w @ (if keyPressed w k = p then [] else [AddKey k p t])"
  by (simp add: addKey_def forwarded_def observe_def calls_append)

lemma addKey_keyPressed:
  "keyPressed (addKey k p t w) k' = (if k' = k then p else keyPressed w k')"
  by (auto simp add: addKey_def keyPressed_def observe_def)

lemma addKey_startedAt: "startedAt (addKey k p t w) = startedAt w"
  by (simp add: addKey_def observe_def)

lemma sendKeyEvents_keyPressed:
  "keyPressed (sendKeyEvents cs w) k =
     (case last_sent cs k of None \<Rightarrow> keyPressed w k | Some p \<Rightarrow> p)"
proof (induction cs arbitrary: w)
  case Nil
  show ?case by (simp add: sendKeyEvents_def)
next
  case (Cons c cs)
  obtain keyCode pressed now where c: "c = (keyCode, pressed, now)"
    by (cases c)
  have "sendKeyEvents (c # cs) w = sendKeyEvents cs (sendKeyEvent keyCode pressed now w)"
    by (simp add: sendKeyEvents_def c)
  then show ?case
    using Cons.IH [of "sendKeyEvent keyCode pressed now w"]
    by (simp add: c sendKeyEvent_def addKey_keyPressed split: option.splits)
qed

subsection \<open>Key de-duplication\<close>

text \<open>
  C1. For every sequence of \<open>sendKeyEvent\<close> calls: a call forwards one \<open>_addKey\<close>
  event, with the relative time of the call, if and only if its pressed argument differs
  from the state the key matrix records for the code (absent counts as released), and it
  forwards nothing otherwise; a redundant call leaves the whole interface, the key matrix
  included, unchanged; and after the sequence the key matrix records, for every code,
  the state of the last call that named it (the state before the sequence if none did).
\<close>

theorem C1_sendKeyEvent_dedup:
  "forwarded (sendKeyEvent k p now w) =
     forwarded w @ (if p \<noteq> keyPressed w k then [AddKey k p (now - startedAt w)] else [])
   \<and> (p = keyPressed w k \<longrightarrow> sendKeyEvent k p now w = w)
   \<and> keyPressed (sendKeyEvents cs w) k =
       (case last_sent cs k of None \<Rightarrow> keyPressed w k | Some q \<Rightarrow> q)"
proof (intro conjI)
  show "forwarded (sendKeyEvent k p now w) =
     forwarded w @ (if p \<noteq> keyPressed w k then [AddKey k p (now - startedAt w)] else [])"
    by (auto simp add: sendKeyEvent_def addKey_forwarded)
  show "p = keyPressed w k \<longrightarrow> sendKeyEvent k p now w = w"
    by (simp add: sendKeyEvent_def addKey_def)
  show "keyPressed (sendKeyEvents cs w) k =
       (case last_sent cs k of None \<Rightarrow> keyPressed w k | Some q \<Rightarrow> q)"
    by (rule sendKeyEvents_keyPressed)
qed

theorem C1_witness:
  "forwarded (sendKeyEvent 65 True 10 blank) = [AddKey 65 True 10]
   \<and> sendKeyEvent 65 False 10 blank = blank
   \<and> keyPressed (sendKeyEvents [(65, True, 10), (65, True, 20), (66, False, 30)] blank) 65"
  using C1_sendKeyEvent_dedup [where k = 65 and p = True and now = 10 and w = blank
      and cs = "[(65, True, 10), (65, True, 20), (66, False, 30)]"]
    C1_sendKeyEvent_dedup [where k = 65 and p = False and now = 10 and w = blank and cs = "[]"]
  by (simp add: keyPressed_def blank_def forwarded_def)

subsection \<open>Simulated key presses\<close>

lemma stamps_append: "stamps (xs @ ys) = stamps xs @ stamps ys"
  by (simp add: stamps_def map_filter_def)

lemma stamps_Nil: "stamps [] = []"
  by (simp add: stamps_def map_filter_def)

lemma stamps_Cons: "stamps (c # cs) = (case stamp c of None \<Rightarrow> stamps cs | Some t \<Rightarrow> t # stamps cs)"
  by (simp add: stamps_def map_filter_def split: option.splits)

lemma fold_addKey:
  "\<exists>es. forwarded (fold (\<lambda>k. addKey k p tm) ks w) = forwarded w @ es
        \<and> set (stamps es) \<subseteq> {tm}"
proof (induction ks arbitrary: w)
  case Nil
  show ?case by (simp add: stamps_Nil)
next
  case (Cons k ks)
  from Cons.IH [of "addKey k p tm w"] obtain es where
    es: "forwarded (fold (\<lambda>k. addKey k p tm) ks (addKey k p tm w)) = forwarded (addKey k p tm w) @ es"
      "set (stamps es) \<subseteq> {tm}"
    by blast
  let ?e = "if keyPressed w k = p then [] else [AddKey k p tm]"
  have "forwarded (fold (\<lambda>k. addKey k p tm) (k # ks) w) = forwarded w @ (?e @ es)"
    using es(1) by (simp add: addKey_forwarded)
  moreover have "set (stamps (?e @ es)) \<subseteq> {tm}"
    using es(2) by (simp add: stamps_append stamps_Cons stamps_Nil)
  ultimately show ?case by blast
qed

lemma fold_addKey_startedAt: "startedAt (fold (\<lambda>k. addKey k p tm) ks w) = startedAt w"
  by (induction ks arbitrary: w) (simp_all add: addKey_startedAt)

lemma host_call_startedAt: "startedAt (host_call c t w) = startedAt w"
  by (cases c)
    (simp_all add: sendKeyEvent_def simulateKeyPress_def sendMouseMotion_def
      sendMouseButton_def addKey_startedAt fold_addKey_startedAt observe_def Let_def)

lemma sorted_two_levels:
  fixes a b :: int
  assumes "set xs \<subseteq> {a}" "set ys \<subseteq> {b}" "a \<le> b"
  shows "sorted (xs @ ys)"
proof -
  have "sorted xs" using assms(1) by (induction xs) auto
  moreover have "sorted ys" using assms(2) by (induction ys) auto
  ultimately show ?thesis using assms by (auto simp add: sorted_append)
qed

lemma host_call_forwarded:
  "\<exists>es. forwarded (host_call c t w) = forwarded w @ es \<and> sorted (stamps es)
     \<and> (\<forall>x \<in> set (stamps es). t - startedAt w \<le> x \<and> x \<le> t - startedAt w + lead c)"
proof (cases c)
  case (SendKeyEvent k p)
  then show ?thesis
    by (simp add: sendKeyEvent_def addKey_forwarded stamps_Cons stamps_Nil)
next
  case (SimulateKeyPress ks)
  let ?tm = "t - startedAt w"
  let ?w1 = "fold (\<lambda>k. addKey k True ?tm) ks w"
  obtain es1 where es1: "forwarded ?w1 = forwarded w @ es1" "set (stamps es1) \<subseteq> {?tm}"
    using fold_addKey by blast
  obtain es2 where es2:
    "forwarded (fold (\<lambda>k. addKey k False (?tm + 16)) ks ?w1) = forwarded ?w1 @ es2"
    "set (stamps es2) \<subseteq> {?tm + 16}"
    using fold_addKey by blast
  have "forwarded (host_call c t w) = forwarded w @ (es1 @ es2)"
    using es1(1) es2(1) by (simp add: SimulateKeyPress simulateKeyPress_def Let_def)
  moreover have "sorted (stamps (es1 @ es2))"
    unfolding stamps_append using es1(2) es2(2) by (rule sorted_two_levels) simp
  moreover have "\<forall>x \<in> set (stamps (es1 @ es2)). ?tm \<le> x \<and> x \<le> ?tm + lead c"
    using es1(2) es2(2) by (auto simp add: stamps_append SimulateKeyPress)
  ultimately show ?thesis by blast
next
  case (SendMouseMotion x y)
  then show ?thesis
    by (simp add: sendMouseMotion_def forwarded_def observe_def calls_append stamps_Cons stamps_Nil)
next
  case (SendMouseButton b p)
  then show ?thesis
    by (simp add: sendMouseButton_def forwarded_def observe_def calls_append stamps_Cons stamps_Nil)
qed

lemma run_inputs_Cons: "run_inputs ((c, t) # cs) w = run_inputs cs (host_call c t w)"
  by (simp add: run_inputs_def)

lemma run_inputs_append: "run_inputs (xs @ ys) w = run_inputs ys (run_inputs xs w)"
  by (simp add: run_inputs_def)

lemma run_inputs_startedAt: "startedAt (run_inputs cs w) = startedAt w"
  by (induction cs arbitrary: w) (auto simp add: run_inputs_def host_call_startedAt)

lemma run_inputs_grows: "\<exists>es. forwarded (run_inputs cs w) = forwarded w @ es"
proof (induction cs arbitrary: w)
  case Nil
  show ?case by (simp add: run_inputs_def)
next
  case (Cons a cs)
  obtain c t where a: "a = (c, t)" by (cases a)
  obtain es1 where "forwarded (host_call c t w) = forwarded w @ es1"
    using host_call_forwarded by blast
  moreover obtain es2 where
    "forwarded (run_inputs cs (host_call c t w)) = forwarded (host_call c t w) @ es2"
    using Cons.IH by blast
  ultimately show ?case by (simp add: a run_inputs_Cons)
qed

lemma issued_Cons:
  "issued ((c, t) # cs) w = issued [(c, t)] w @ issued cs (host_call c t w)"
proof -
  obtain es1 where e1: "forwarded (host_call c t w) = forwarded w @ es1"
    using host_call_forwarded by blast
  obtain es2 where
    e2: "forwarded (run_inputs cs (host_call c t w)) = forwarded (host_call c t w) @ es2"
    using run_inputs_grows by blast
  show ?thesis
    by (simp add: issued_def run_inputs_Cons e1 e2) (simp add: run_inputs_def e1)
qed

lemma issued_single:
  "sorted (stamps (issued [(c, t)] w))
   \<and> (\<forall>x \<in> set (stamps (issued [(c, t)] w)). t - startedAt w \<le> x \<and> x \<le> t - startedAt w + lead c)"
proof -
  obtain es where "forwarded (host_call c t w) = forwarded w @ es" "sorted (stamps es)"
    "\<forall>x \<in> set (stamps es). t - startedAt w \<le> x \<and> x \<le> t - startedAt w + lead c"
    using host_call_forwarded by blast
  then show ?thesis by (simp add: issued_def run_inputs_def)
qed

lemma lead_nonneg: "0 \<le> lead c"
  by (cases c) simp_all

lemma spaced_sorted:
  "spaced cs \<Longrightarrow> sorted (stamps (issued cs w))
     \<and> (\<forall>x \<in> set (stamps (issued cs w)). \<forall>c t cs'. cs = (c, t) # cs' \<longrightarrow> t - startedAt w \<le> x)"
proof (induction cs arbitrary: w rule: spaced.induct)
  case 1
  show ?case by (simp add: issued_def run_inputs_def stamps_Nil)
next
  case (2 a)
  obtain c t where a: "a = (c, t)" by (cases a)
  show ?case using issued_single [of c t w] by (simp add: a)
next
  case (3 c t c' t' cs)
  let ?w1 = "host_call c t w"
  have sp: "t + lead c \<le> t'" "spaced ((c', t') # cs)"
    using "3.prems" by simp_all
  have ih: "sorted (stamps (issued ((c', t') # cs) ?w1))"
    "\<forall>x \<in> set (stamps (issued ((c', t') # cs) ?w1)). t' - startedAt w \<le> x"
    using "3.IH" [OF sp(2), of ?w1] by (simp_all add: host_call_startedAt)
  have one: "sorted (stamps (issued [(c, t)] w))"
    "\<forall>x \<in> set (stamps (issued [(c, t)] w)). t - startedAt w \<le> x \<and> x \<le> t - startedAt w + lead c"
    using issued_single [of c t w] by simp_all
  have split: "issued ((c, t) # (c', t') # cs) w
      = issued [(c, t)] w @ issued ((c', t') # cs) ?w1"
    by (rule issued_Cons)
  have cross: "\<forall>x \<in> set (stamps (issued [(c, t)] w)).
      \<forall>y \<in> set (stamps (issued ((c', t') # cs) ?w1)). x \<le> y"
  proof (intro ballI)
    fix x y
    assume "x \<in> set (stamps (issued [(c, t)] w))"
      and "y \<in> set (stamps (issued ((c', t') # cs) ?w1))"
    then have "x \<le> t - startedAt w + lead c" and "t' - startedAt w \<le> y"
      using one(2) ih(2) by blast+
    then show "x \<le> y" using sp(1) by linarith
  qed
  have low: "\<forall>y \<in> set (stamps (issued ((c', t') # cs) ?w1)). t - startedAt w \<le> y"
  proof
    fix y assume "y \<in> set (stamps (issued ((c', t') # cs) ?w1))"
    then have "t' - startedAt w \<le> y" using ih(2) by blast
    then show "t - startedAt w \<le> y" using sp(1) lead_nonneg [of c] by linarith
  qed
  have srt: "sorted (stamps (issued ((c, t) # (c', t') # cs) w))"
    unfolding split stamps_append sorted_append
    using one(1) ih(1) cross by blast
  have bnd: "\<forall>x \<in> set (stamps (issued ((c, t) # (c', t') # cs) w)). t - startedAt w \<le> x"
    unfolding split stamps_append using one(2) low by auto
  show ?case using srt bnd by simp
qed

text \<open>
  C6, as stated, fails: \<open>simulateKeyPress(65, 65)\<close> on an interface with no key
  pressed forwards two events, because the second press and the second release are
  absorbed by the de-duplication of \<open>addKey\<close>.
\<close>

theorem C6_counterexample:
  "forwarded (simulateKeyPress [65, 65] 100 blank) = [AddKey 65 True 100, AddKey 65 False 116]
   \<and> length (forwarded (simulateKeyPress [65, 65] 100 blank)) \<noteq> 4"
  by (simp add: simulateKeyPress_def addKey_def observe_def keyPressed_def
      forwarded_def blank_def)

text \<open>
  C6, amended. For every call \<open>simulateKeyPress(a, b)\<close> with \<open>a \<noteq> b\<close>, made while the
  key matrix records neither \<open>a\<close> nor \<open>b\<close> as pressed, exactly four events are forwarded
  to the module, in order: press(a,t), press(b,t), release(a,t+16), release(b,t+16),
  where \<open>t\<close> is the relative time of the call.
\<close>

theorem C6_simulateKeyPress_fresh_pair:
  assumes "a \<noteq> b" and "\<not> keyPressed w a" and "\<not> keyPressed w b"
  shows "forwarded (simulateKeyPress [a, b] now w) =
     forwarded w @ [AddKey a True (now - startedAt w), AddKey b True (now - startedAt w),
       AddKey a False (now - startedAt w + 16), AddKey b False (now - startedAt w + 16)]"
  using assms
  by (simp add: simulateKeyPress_def Let_def addKey_forwarded addKey_keyPressed)

theorem C6_witness:
  "(65 :: int) \<noteq> 66 \<and> \<not> keyPressed blank 65 \<and> \<not> keyPressed blank 66
   \<and> forwarded (simulateKeyPress [65, 66] 100 blank) =
       [AddKey 65 True 100, AddKey 66 True 100, AddKey 65 False 116, AddKey 66 False 116]"
proof -
  have h: "(65 :: int) \<noteq> 66" "\<not> keyPressed blank 65" "\<not> keyPressed blank 66"
    by (simp_all add: keyPressed_def blank_def)
  show ?thesis
    using h C6_simulateKeyPress_fresh_pair [OF h, of 100]
    by (simp add: forwarded_def blank_def)
qed

subsection \<open>Order and timestamps of forwarded events\<close>

text \<open>
  C9, as stated, fails: the releases of \<open>simulateKeyPress\<close> carry the time of the call
  plus 16, so a command issued 5 time units later carries a smaller timestamp than the
  event forwarded before it, although the clock never went back.
\<close>

theorem C9_counterexample:
  "stamps (issued [(SimulateKeyPress [65], 100), (SendKeyEvent 66 True, 105)] blank) = [100, 116, 105]
   \<and> \<not> sorted (stamps (issued [(SimulateKeyPress [65], 100), (SendKeyEvent 66 True, 105)] blank))"
  by (simp add: issued_def run_inputs_def simulateKeyPress_def sendKeyEvent_def
      addKey_def observe_def keyPressed_def forwarded_def blank_def stamps_Cons stamps_Nil)

lemma keyPressed_addKey: "keyPressed (addKey k p t w) = (keyPressed w)(k := p)"
  by (rule ext) (simp add: addKey_keyPressed)

lemma keyPressed_observe [simp]: "keyPressed (observe x w) = keyPressed w"
  by (rule ext) (simp add: keyPressed_def observe_def)

lemma fold_addKey_exact:
  "forwarded (fold (\<lambda>k. addKey k p t) ks w)
     = forwarded w @ map (\<lambda>k. AddKey k p t) (passed p (keyPressed w) ks)
   \<and> keyPressed (fold (\<lambda>k. addKey k p t) ks w) = (\<lambda>k. if k \<in> set ks then p else keyPressed w k)"
proof (induction ks arbitrary: w)
  case Nil
  show ?case by simp
next
  case (Cons k ks)
  let ?w = "addKey k p t w"
  have st: "keyPressed ?w = (keyPressed w)(k := p)" by (rule keyPressed_addKey)
  have ih1: "forwarded (fold (\<lambda>k. addKey k p t) ks ?w)
      = forwarded ?w @ map (\<lambda>k. AddKey k p t) (passed p ((keyPressed w)(k := p)) ks)"
    using Cons.IH [of ?w] unfolding st by blast
  have ih2: "keyPressed (fold (\<lambda>k. addKey k p t) ks ?w)
      = (\<lambda>k'. if k' \<in> set ks then p else ((keyPressed w)(k := p)) k')"
    using Cons.IH [of ?w] unfolding st by blast
  have f: "fold (\<lambda>k. addKey k p t) (k # ks) w = fold (\<lambda>k. addKey k p t) ks ?w" by simp
  have fw: "forwarded (fold (\<lambda>k. addKey k p t) (k # ks) w)
     = forwarded w @ map (\<lambda>k. AddKey k p t) (passed p (keyPressed w) (k # ks))"
  proof (cases "keyPressed w k = p")
    case True
    then have same: "(keyPressed w)(k := p) = keyPressed w" by auto
    have "passed p (keyPressed w) (k # ks) = passed p (keyPressed w) ks" using True by simp
    moreover have "forwarded ?w = forwarded w" using True by (simp add: addKey_forwarded)
    ultimately show ?thesis unfolding f ih1 same by simp
  next
    case False
    then have "passed p (keyPressed w) (k # ks) = k # passed p ((keyPressed w)(k := p)) ks"
      by simp
    moreover have "forwarded ?w = forwarded w @ [AddKey k p t]"
      using False by (simp add: addKey_forwarded)
    ultimately show ?thesis unfolding f ih1 by simp
  qed
  have kp: "keyPressed (fold (\<lambda>k. addKey k p t) (k # ks) w)
     = (\<lambda>k'. if k' \<in> set (k # ks) then p else keyPressed w k')"
    unfolding f ih2 by (rule ext) simp
  show ?case using fw kp by blast
qed

lemma host_call_exact:
  "forwarded (host_call c now w) = forwarded w @ emitted c (now - startedAt w) (keyPressed w)
   \<and> keyPressed (host_call c now w) = pressed_after c (keyPressed w)"
proof (cases c)
  case (SendKeyEvent k p)
  then show ?thesis
    by (simp add: sendKeyEvent_def addKey_forwarded keyPressed_addKey)
next
  case (SimulateKeyPress ks)
  let ?t = "now - startedAt w"
  let ?w1 = "fold (\<lambda>k. addKey k True ?t) ks w"
  note a = fold_addKey_exact [of True ?t ks w]
  note b = fold_addKey_exact [of False "?t + 16" ks ?w1]
  have st1: "keyPressed ?w1 = (\<lambda>k. k \<in> set ks \<or> keyPressed w k)"
    using a by auto
  have "forwarded (host_call c now w) = forwarded w @ emitted c ?t (keyPressed w)"
    using a b by (simp add: SimulateKeyPress simulateKeyPress_def Let_def st1)
  moreover have "keyPressed (host_call c now w) = pressed_after c (keyPressed w)"
    using b by (auto simp add: SimulateKeyPress simulateKeyPress_def Let_def st1)
  ultimately show ?thesis by blast
next
  case (SendMouseMotion x y)
  then show ?thesis by (simp add: sendMouseMotion_def forwarded_observe)
next
  case (SendMouseButton b p)
  then show ?thesis by (simp add: sendMouseButton_def forwarded_observe)
qed

lemma issued_one: "issued [(c, now)] w = emitted c (now - startedAt w) (keyPressed w)"
  using host_call_exact [of c now w] by (simp add: issued_def run_inputs_def)

lemma issued_all: "forwarded (run_inputs cs w) = forwarded w @ issued cs w"
proof -
  obtain es where "forwarded (run_inputs cs w) = forwarded w @ es"
    using run_inputs_grows by blast
  then show ?thesis by (simp add: issued_def)
qed

text \<open>
  C9, amended. For every sequence of key and mouse commands, the events the module
  receives are those the commands forward, command after command in the order the host
  issued them, nothing else and nothing reordered. A command issued at clock reading
  \<open>now\<close> forwards the events \<open>emitted\<close> tells, each carrying a relative timestamp:
  \<open>sendMouseMotion\<close> and \<open>sendMouseButton\<close> forward one event stamped
  \<open>now - startedAt\<close>; \<open>sendKeyEvent\<close> forwards one event with that stamp unless the
  matrix already records the code in that state; \<open>simulateKeyPress\<close> forwards a press
  stamped \<open>now - startedAt\<close> for each code not yet pressed, then a release stamped
  \<open>now - startedAt + 16\<close> for each code. \<open>startedAt\<close> never changes. What the module
  has received after the first commands of a sequence is a prefix of what it has
  received after all of them. The timestamps are non-decreasing across the whole
  sequence whenever the clock readings of the commands never decrease and every command
  that follows a \<open>simulateKeyPress\<close> reads the clock at least 16 time units after that
  \<open>simulateKeyPress\<close> did.
\<close>

theorem C9_fifo_and_timestamps:
  "issued [] w = []
   \<and> issued ((c, now) # cs) w
       = emitted c (now - startedAt w) (keyPressed w) @ issued cs (host_call c now w)
   \<and> keyPressed (host_call c now w) = pressed_after c (keyPressed w)
   \<and> startedAt (host_call c now w) = startedAt w
   \<and> forwarded (run_inputs cs w) = forwarded w @ issued cs w
   \<and> prefix (forwarded (run_inputs xs w)) (forwarded (run_inputs (xs @ ys) w))
   \<and> (spaced cs \<longrightarrow> sorted (stamps (issued cs w)))"
proof (intro conjI)
  show "issued [] w = []" by (simp add: issued_def run_inputs_def)
  show "issued ((c, now) # cs) w
       = emitted c (now - startedAt w) (keyPressed w) @ issued cs (host_call c now w)"
    using issued_Cons [of c now cs w] by (simp add: issued_one)
  show "keyPressed (host_call c now w) = pressed_after c (keyPressed w)"
    using host_call_exact by blast
  show "startedAt (host_call c now w) = startedAt w" by (rule host_call_startedAt)
  show "forwarded (run_inputs cs w) = forwarded w @ issued cs w" by (rule issued_all)
  obtain es where
    "forwarded (run_inputs ys (run_inputs xs w)) = forwarded (run_inputs xs w) @ es"
    using run_inputs_grows by blast
  then show "prefix (forwarded (run_inputs xs w)) (forwarded (run_inputs (xs @ ys) w))"
    by (simp add: run_inputs_append)
  show "spaced cs \<longrightarrow> sorted (stamps (issued cs w))"
    using spaced_sorted by blast
qed

theorem C9_witness:
  "spaced [(SimulateKeyPress [65], 100), (SendKeyEvent 66 True, 116), (SendMouseMotion 3 4, 116)]
   \<and> sorted (stamps (issued
        [(SimulateKeyPress [65], 100), (SendKeyEvent 66 True, 116), (SendMouseMotion 3 4, 116)] blank))
   \<and> issued [(SimulateKeyPress [65], 100), (SendKeyEvent 66 True, 116), (SendMouseMotion 3 4, 116)] blank
       = [AddKey 65 True 100, AddKey 65 False 116, AddKey 66 True 116, MouseMove 3 4 116]
   \<and> prefix (forwarded (run_inputs [(SendKeyEvent 65 True, 7)] blank))
        (forwarded (run_inputs ([(SendKeyEvent 65 True, 7)] @ [(SendMouseButton 0 True, 9)]) blank))"
proof -
  let ?cs = "[(SimulateKeyPress [65], 100), (SendKeyEvent 66 True, 116), (SendMouseMotion 3 4, 116)]"
  have h: "spaced ?cs" by simp
  have s: "sorted (stamps (issued ?cs blank))"
    using h C9_fifo_and_timestamps [where cs = ?cs and w = blank] by blast
  have p: "prefix (forwarded (run_inputs [(SendKeyEvent 65 True, 7)] blank))
        (forwarded (run_inputs ([(SendKeyEvent 65 True, 7)] @ [(SendMouseButton 0 True, 9)]) blank))"
    using C9_fifo_and_timestamps [where xs = "[(SendKeyEvent 65 True, 7)]"
        and ys = "[(SendMouseButton 0 True, 9)]" and w = blank] by blast
  have e: "issued ?cs blank
       = [AddKey 65 True 100, AddKey 65 False 116, AddKey 66 True 116, MouseMove 3 4 116]"
    by (simp add: issued_def run_inputs_def simulateKeyPress_def sendKeyEvent_def
      sendMouseMotion_def addKey_def observe_def keyPressed_def forwarded_def blank_def)
  show ?thesis using h s e p by blast
qed

subsection \<open>Screenshot\<close>

lemma fill_alpha_length: "length (fill_alpha off len next heap) = length heap"
proof (induction off len "next" heap rule: fill_alpha.induct)
  case (1 off len nxt heap)
  show ?case
  proof (cases "nxt < len")
    case True
    then show ?thesis using "1.IH" by (subst fill_alpha.simps) simp
  next
    case False
    then show ?thesis by (subst fill_alpha.simps) simp
  qed
qed

lemma fill_alpha_nth:
  "off + len \<le> length heap \<Longrightarrow> j < len \<Longrightarrow>
   fill_alpha off len next heap ! (off + j) =
     (if next \<le> j \<and> (j - next) mod 4 = 0 then 255 else heap ! (off + j))"
proof (induction off len "next" heap arbitrary: j rule: fill_alpha.induct)
  case (1 off len nxt heap)
  show ?case
  proof (cases "nxt < len")
    case False
    then show ?thesis using "1.prems" by (subst fill_alpha.simps) simp
  next
    case True
    have eq: "fill_alpha off len nxt heap = fill_alpha off len (nxt + 4) (heap[off + nxt := 255])"
      using True by (subst fill_alpha.simps) simp
    have ih: "fill_alpha off len (nxt + 4) (heap[off + nxt := 255]) ! (off + j) =
        (if nxt + 4 \<le> j \<and> (j - (nxt + 4)) mod 4 = 0 then 255
         else heap[off + nxt := 255] ! (off + j))"
      using "1.IH" [OF True, of j] "1.prems" by simp
    show ?thesis
    proof (cases "j = nxt")
      case True
      then show ?thesis using eq ih "1.prems" by simp
    next
      case False
      have a: "heap[off + nxt := 255] ! (off + j) = heap ! (off + j)"
        using False by simp
      have b: "(nxt + 4 \<le> j \<and> (j - (nxt + 4)) mod 4 = 0) = (nxt \<le> j \<and> (j - nxt) mod 4 = 0)"
        using False by presburger
      show ?thesis unfolding eq ih a b ..
    qed
  qed
qed

lemma screenshot_Inr:
  "screenshot wd ht ptr w = (Inr img, w') \<Longrightarrow>
     ptr + wd * ht * 4 \<le> length (HEAPU8 w) \<and> data img = View ptr (wd * ht * 4)
     \<and> HEAPU8 w' = fill_alpha ptr (wd * ht * 4) 3 (HEAPU8 w)"
  by (auto simp add: screenshot_def Let_def observe_def split: if_splits)

text \<open>
  C8. For every content of the module's heap and every frame of \<open>wd\<close> by \<open>ht\<close> pixels
  with \<open>wd \<ge> 1\<close> and \<open>ht \<ge> 1\<close>: \<open>screenshot\<close> returns an image whenever the frame
  lies within the heap, and in every image it returns the pixel data is \<open>wd * ht * 4\<close>
  bytes long and every fourth byte from offset 3 on, the alpha channel of each pixel,
  is 255.
\<close>

theorem C8_screenshot_alpha:
  assumes "1 \<le> wd" and "1 \<le> ht"
  shows "(ptr + wd * ht * 4 \<le> length (HEAPU8 w) \<longrightarrow>
            (\<exists>img w'. screenshot wd ht ptr w = (Inr img, w')))
       \<and> (\<forall>img w'. screenshot wd ht ptr w = (Inr img, w') \<longrightarrow>
            length (pixels w' img) = wd * ht * 4
            \<and> (\<forall>i < wd * ht. pixels w' img ! (4 * i + 3) = 255))"
proof (intro conjI allI impI)
  assume "ptr + wd * ht * 4 \<le> length (HEAPU8 w)"
  moreover have "wd * ht * 4 \<noteq> 0" using assms by simp
  ultimately show "\<exists>img w'. screenshot wd ht ptr w = (Inr img, w')"
    by (simp add: screenshot_def Let_def observe_def)
next
  fix img w'
  assume s: "screenshot wd ht ptr w = (Inr img, w')"
  let ?n = "wd * ht * 4"
  have r: "ptr + ?n \<le> length (HEAPU8 w)" "data img = View ptr ?n"
    "HEAPU8 w' = fill_alpha ptr ?n 3 (HEAPU8 w)"
    using screenshot_Inr [OF s] by simp_all
  show "length (pixels w' img) = ?n"
    using r by (simp add: pixels_def fill_alpha_length)
  fix i assume i: "i < wd * ht"
  then have j: "4 * i + 3 < ?n" by simp
  have "pixels w' img ! (4 * i + 3) = fill_alpha ptr ?n 3 (HEAPU8 w) ! (ptr + (4 * i + 3))"
    using r j by (simp add: pixels_def fill_alpha_length)
  also have "\<dots> = 255"
    using fill_alpha_nth [OF r(1) j, of 3] by simp
  finally show "pixels w' img ! (4 * i + 3) = 255" .
qed

theorem C8_witness:
  "(1 :: nat) \<le> 1 \<and> 0 + 1 * 1 * 4 \<le> length (HEAPU8 frame1)
   \<and> (\<exists>img w'. screenshot 1 1 0 frame1 = (Inr img, w'))
   \<and> pixels (snd (screenshot 1 1 0 frame1)) \<lparr>data = View 0 4, width = 1, height = 1\<rparr> ! 3 = 255"
proof -
  have h: "(1 :: nat) \<le> 1" by simp
  have l: "0 + 1 * 1 * 4 \<le> length (HEAPU8 frame1)" by (simp add: frame1_def blank_def)
  have e: "screenshot 1 1 0 frame1 =
      (Inr \<lparr>data = View 0 4, width = 1, height = 1\<rparr>, snd (screenshot 1 1 0 frame1))"
    by (simp add: screenshot_def Let_def observe_def frame1_def blank_def)
  have "\<forall>i < 1 * 1. pixels (snd (screenshot 1 1 0 frame1)) \<lparr>data = View 0 4, width = 1, height = 1\<rparr> ! (4 * i + 3) = 255"
    using C8_screenshot_alpha [OF h h, of 0 frame1] e by blast
  then have "pixels (snd (screenshot 1 1 0 frame1)) \<lparr>data = View 0 4, width = 1, height = 1\<rparr> ! 3 = 255"
    by simp
  moreover have "\<exists>img w'. screenshot 1 1 0 frame1 = (Inr img, w')"
    using C8_screenshot_alpha [OF h h, of 0 frame1] l by blast
  ultimately show ?thesis using h l by blast
qed

text \<open>
  C7 does not hold of the code. The claim is that the image is a copy of the frame
  buffer and that \<open>screenshot\<close> leaves the module's memory alone. On a heap holding
  the pixel (1, 2, 3, 0), \<open>screenshot\<close> writes the alpha byte into the module's heap,
  the image it returns is a view of that heap, and a later write of the module to its
  frame buffer changes the pixels of the image.
\<close>

theorem C7_screenshot_is_a_view:
  "fst (screenshot 1 1 0 frame1) = Inr \<lparr>data = View 0 4, width = 1, height = 1\<rparr>
   \<and> HEAPU8 frame1 = [1, 2, 3, 0]
   \<and> HEAPU8 (snd (screenshot 1 1 0 frame1)) = [1, 2, 3, 255]
   \<and> pixels (snd (screenshot 1 1 0 frame1)) \<lparr>data = View 0 4, width = 1, height = 1\<rparr>
       = [1, 2, 3, 255]
   \<and> pixels (module_store 0 9 (snd (screenshot 1 1 0 frame1)))
         \<lparr>data = View 0 4, width = 1, height = 1\<rparr> = [9, 2, 3, 255]"
  by (simp add: screenshot_def Let_def observe_def frame1_def blank_def pixels_def
      module_store_def fill_alpha.simps)

text \<open>The sibling path \<open>onFrame\<close> copies the frame out of the heap with \<open>slice\<close>.\<close>

lemma onFrame_copies:
  "fired (trace (invoke (CbOnFrame 0 1 1) frame1)) = [Frame (Own [1, 2, 3, 0])]
   \<and> HEAPU8 (invoke (CbOnFrame 0 1 1) frame1) = [1, 2, 3, 0]"
  by (simp add: invoke_def observe_def frame1_def blank_def)

subsection \<open>The invariant of an interface\<close>

lemma preceded_snoc:
  "preceded a b (xs @ [x]) = (preceded a b xs \<and> (x = b \<longrightarrow> a \<in> set xs \<or> x = a))"
  by (induction xs) auto

lemma preceded_absent: "b \<notin> set xs \<Longrightarrow> preceded a b xs"
  by (induction xs) auto

lemma preceded_split:
  "preceded a b xs \<Longrightarrow> a \<noteq> b \<Longrightarrow> xs = pre @ b # post \<Longrightarrow> a \<in> set pre"
proof (induction xs arbitrary: pre)
  case Nil
  then show ?case by simp
next
  case (Cons x xs)
  show ?case
  proof (cases pre)
    case Nil
    then show ?thesis using Cons.prems by (auto split: if_splits)
  next
    case (Cons y ys)
    then show ?thesis using Cons.prems Cons.IH [of ys] by (auto split: if_splits)
  qed
qed

lemma sound_observe:
  assumes "sound w" and "x \<noteq> Bus ExitEvent" and "\<And>p st. x \<noteq> Settled p st"
  shows "sound (observe x w)"
  using assms unfolding sound_def observe_def
  by (auto simp add: preceded_snoc)

lemma sound_settle:
  assumes "sound w" and "p < fresh w"
    and "\<And>v. st = Fulfilled v \<Longrightarrow> exitPromise w = Some p \<Longrightarrow> Bus ExitEvent \<in> set (trace w)"
    and "\<And>v. st = Fulfilled v \<Longrightarrow> mod_exit w = Some p \<Longrightarrow> Callback CbExit \<in> set (trace w)"
  shows "sound (settle p st w)"
proof (cases "pstates w p = Some Pending")
  case False
  then have "settle p st w = w"
    by (simp add: settle_def split: option.splits pstate.splits)
  then show ?thesis using assms(1) by simp
next
  case True
  let ?w = "settle p st w"
  have eq: "mod_persist ?w = mod_persist w" "mod_exit ?w = mod_exit w"
    "exitPromise ?w = exitPromise w" "fresh ?w = fresh w"
    "trace ?w = trace w @ [Settled p st]"
    "pstates ?w = (pstates w)(p \<mapsto> st)"
    "reacts ?w = filter (\<lambda>pr. fst pr \<noteq> p) (reacts w)"
    "jobs ?w = jobs w @ map (\<lambda>pr. (snd pr, st)) (filter (\<lambda>pr. fst pr = p) (reacts w))"
    using True by (simp_all add: settle_def observe_def)
  show ?thesis
    unfolding sound_def eq
    using assms unfolding sound_def
    by (auto simp add: preceded_snoc)
qed


lemma sound_fields [simp]:
  "sound (w\<lparr>keyMatrix := km\<rparr>) = sound w"
  "sound (w\<lparr>freq := f\<rparr>) = sound w"
  "sound (w\<lparr>HEAPU8 := h\<rparr>) = sound w"
  "sound (w\<lparr>startupErrorLog := l\<rparr>) = sound w"
  "sound (w\<lparr>mod_err := e\<rparr>) = sound w"
  "sound (w\<lparr>persistPromise := pp\<rparr>) = sound w"
  "sound (w\<lparr>startedAt := t\<rparr>) = sound w"
  "sound (w\<lparr>wired := b\<rparr>) = sound w"
  by (simp_all add: sound_def)

lemma sound_forget_persist: "sound w \<Longrightarrow> sound (w\<lparr>mod_persist := None\<rparr>)"
  by (simp add: sound_def)

text \<open>What the primitives leave alone.\<close>

lemma observe_frame [simp]:
  "fresh (observe x w) = fresh w" "exitPromise (observe x w) = exitPromise w"
  "persistPromise (observe x w) = persistPromise w" "mod_exit (observe x w) = mod_exit w"
  "mod_persist (observe x w) = mod_persist w" "pstates (observe x w) = pstates w"
  "jobs (observe x w) = jobs w" "reacts (observe x w) = reacts w"
  "trace (observe x w) = trace w @ [x]" "mod_err (observe x w) = mod_err w"
  "startupErrorLog (observe x w) = startupErrorLog w" "startedAt (observe x w) = startedAt w"
  by (simp_all add: observe_def)

lemma settle_frame [simp]:
  "fresh (settle p st w) = fresh w" "exitPromise (settle p st w) = exitPromise w"
  "persistPromise (settle p st w) = persistPromise w" "mod_exit (settle p st w) = mod_exit w"
  "mod_persist (settle p st w) = mod_persist w" "mod_err (settle p st w) = mod_err w"
  "startupErrorLog (settle p st w) = startupErrorLog w"
  by (simp_all add: settle_def split: option.splits pstate.splits)

lemma err_sink_frame [simp]:
  "fresh (err_sink a w) = fresh w" "exitPromise (err_sink a w) = exitPromise w"
  "persistPromise (err_sink a w) = persistPromise w" "mod_exit (err_sink a w) = mod_exit w"
  "mod_persist (err_sink a w) = mod_persist w" "mod_err (err_sink a w) = mod_err w"
  "pstates (err_sink a w) = pstates w" "jobs (err_sink a w) = jobs w"
  "reacts (err_sink a w) = reacts w"
  by (simp_all add: err_sink_def fireMessage_def Let_def split: sink.splits)

lemma sound_err_sink: "sound w \<Longrightarrow> sound (err_sink a w)"
  by (simp add: err_sink_def fireMessage_def Let_def sound_observe split: sink.splits)

lemma invoke_frame [simp]:
  "fresh (invoke cb w) = fresh w" "exitPromise (invoke cb w) = exitPromise w"
  "persistPromise (invoke cb w) = persistPromise w" "mod_exit (invoke cb w) = mod_exit w"
  "mod_err (invoke cb w) = mod_err w"
  by (cases cb; simp add: invoke_def fireMessage_def Let_def split: option.splits)+

lemma sound_invoke: "sound w \<Longrightarrow> sound (invoke cb w)"
proof (cases "installed w cb")
  case False
  assume "sound w"
  then show ?thesis using False by (simp add: invoke_def)
next
  case True
  assume s: "sound w"
  let ?w = "observe (Callback cb) w"
  have s1: "sound ?w" using s by (simp add: sound_observe)
  have inv: "invoke cb w = handler cb ?w" using True by (simp add: invoke_def)
  show ?thesis
  proof (cases cb)
    case (CbPersist archive)
    then obtain p where p: "mod_persist w = Some p" using True by auto
    have "sound (settle p (Fulfilled (Archive archive)) ?w)"
      using s1 s p by (intro sound_settle) (auto simp add: sound_def)
    then show ?thesis using inv p CbPersist by (simp add: sound_forget_persist)
  next
    case CbExit
    then obtain p where p: "mod_exit w = Some p" using True by auto
    have "sound (settle p (Fulfilled Undefined) ?w)"
      using s1 s p CbExit by (intro sound_settle) (auto simp add: sound_def)
    then show ?thesis using inv p CbExit by simp
  qed (insert s s1, auto simp add: invoke_def sound_observe sound_err_sink fireMessage_def Let_def)
qed

lemma sound_fold_invoke: "sound w \<Longrightarrow> sound (fold invoke cbs w)"
  by (induction cbs arbitrary: w) (simp_all add: sound_invoke)

lemma fold_invoke_frame [simp]:
  "fresh (fold invoke cbs w) = fresh w" "exitPromise (fold invoke cbs w) = exitPromise w"
  "persistPromise (fold invoke cbs w) = persistPromise w"
  "mod_exit (fold invoke cbs w) = mod_exit w" "mod_err (fold invoke cbs w) = mod_err w"
  by (induction cbs arbitrary: w) simp_all

lemma module_call_frame [simp]:
  "fresh (snd (module_call c r w)) = fresh w"
  "exitPromise (snd (module_call c r w)) = exitPromise w"
  "persistPromise (snd (module_call c r w)) = persistPromise w"
  "mod_exit (snd (module_call c r w)) = mod_exit w"
  "mod_err (snd (module_call c r w)) = mod_err w"
  "fst (module_call c r w) = snd r"
  by (simp_all add: module_call_def)

lemma sound_module_call: "sound w \<Longrightarrow> sound (snd (module_call c r w))"
  by (simp add: module_call_def sound_fold_invoke sound_observe)

lemma sound_microtask: "sound w \<Longrightarrow> sound (microtask w)"
proof (cases "jobs w")
  case Nil
  assume "sound w"
  then show ?thesis using Nil by (simp add: microtask_def)
next
  case (Cons j js)
  assume s: "sound w"
  let ?w = "w\<lparr>jobs := js\<rparr>"
  have s1: "sound ?w" using s Cons by (simp add: sound_def)
  obtain q st where j: "j = (ThenFireExit q, st)" by (cases j) (metis reaction.exhaust)
  have q: "exitPromise w = Some q" using s Cons j by (auto simp add: sound_def)
  have m: "microtask w = run_job j ?w" using Cons by (simp add: microtask_def)
  show ?thesis
  proof (cases st)
    case Pending
    then show ?thesis using m j s1 by simp
  next
    case (Rejected e)
    have "sound (settle q (Rejected e) ?w)"
      using s1 q by (intro sound_settle) (auto simp add: sound_def)
    then show ?thesis using m j Rejected by simp
  next
    case (Fulfilled v)
    have cb: "Callback CbExit \<in> set (trace w)"
      using s Cons j Fulfilled by (auto simp add: sound_def)
    have s2: "sound (fireExit ?w)"
      using s1 q cb unfolding sound_def fireExit_def observe_def
      by (auto simp add: preceded_snoc)
    have "sound (settle q (Fulfilled Undefined) (fireExit ?w))"
      using s2 q by (intro sound_settle) (auto simp add: sound_def fireExit_def)
    then show ?thesis using m j Fulfilled by simp
  qed
qed

lemma new_promise_simps [simp]:
  "fst (new_promise w) = fresh w"
  "fresh (snd (new_promise w)) = Suc (fresh w)"
  "exitPromise (snd (new_promise w)) = exitPromise w"
  "persistPromise (snd (new_promise w)) = persistPromise w"
  "mod_exit (snd (new_promise w)) = mod_exit w"
  "mod_persist (snd (new_promise w)) = mod_persist w"
  "mod_err (snd (new_promise w)) = mod_err w"
  "trace (snd (new_promise w)) = trace w"
  "jobs (snd (new_promise w)) = jobs w"
  "reacts (snd (new_promise w)) = reacts w"
  "pstates (snd (new_promise w)) = (pstates w)(fresh w \<mapsto> Pending)"
  "startupErrorLog (snd (new_promise w)) = startupErrorLog w"
  by (simp_all add: new_promise_def)

lemma sound_new_promise: "sound w \<Longrightarrow> sound (snd (new_promise w))"
  unfolding sound_def by (auto simp add: less_Suc_eq)

lemma sound_idle:
  "sound w \<Longrightarrow> exitPromise w = None \<Longrightarrow> reacts w = [] \<and> jobs w = []"
  unfolding sound_def by (cases "reacts w"; cases "jobs w") auto

lemma persist_None:
  "persistPromise w = None \<Longrightarrow>
   persist r w =
     (fresh w,
      (case snd r of
         Throws e \<Rightarrow> settle (fresh w) (Rejected e)
           (snd (module_call PackFsToBundle r ((snd (new_promise w))\<lparr>mod_persist := Some (fresh w)\<rparr>)))
       | Returns \<Rightarrow>
           snd (module_call PackFsToBundle r ((snd (new_promise w))\<lparr>mod_persist := Some (fresh w)\<rparr>)))
      \<lparr>persistPromise := Some (fresh w)\<rparr>)"
  by (cases "snd r") (simp_all add: persist_def Let_def split_beta)

lemma exit_None:
  "exitPromise w = None \<Longrightarrow>
   exit r w =
     (let w4 = (case snd r of
         Throws e \<Rightarrow> settle (fresh w) (Rejected e)
           (snd (module_call RequestExit r ((snd (new_promise w))\<lparr>mod_exit := Some (fresh w)\<rparr>)))
       | Returns \<Rightarrow>
           snd (module_call RequestExit r ((snd (new_promise w))\<lparr>mod_exit := Some (fresh w)\<rparr>)))
      in (fst (then_fireExit (fresh w) w4),
          (snd (then_fireExit (fresh w) w4))\<lparr>exitPromise := Some (fst (then_fireExit (fresh w) w4))\<rparr>))"
  by (cases "snd r") (simp_all add: exit_def Let_def split_beta)

lemma sound_persist: "sound w \<Longrightarrow> sound (snd (persist r w))"
proof (cases "persistPromise w")
  case (Some p)
  assume "sound w"
  then show ?thesis using Some by (simp add: persist_def)
next
  case None
  assume s: "sound w"
  let ?p = "fresh w"
  let ?w2 = "(snd (new_promise w))\<lparr>mod_persist := Some ?p\<rparr>"
  let ?w3 = "snd (module_call PackFsToBundle r ?w2)"
  let ?w4 = "case snd r of Throws e \<Rightarrow> settle ?p (Rejected e) ?w3 | Returns \<Rightarrow> ?w3"
  have s2: "sound ?w2"
    using sound_new_promise [OF s] s unfolding sound_def by auto
  have s3: "sound ?w3" using s2 by (rule sound_module_call)
  have s4: "sound ?w4"
  proof (cases "snd r")
    case Returns
    then show ?thesis using s3 by simp
  next
    case (Throws e)
    have "sound (settle ?p (Rejected e) ?w3)"
      using s3 by (intro sound_settle) simp_all
    then show ?thesis using Throws by simp
  qed
  have "snd (persist r w) = ?w4\<lparr>persistPromise := Some ?p\<rparr>"
    using None by (simp add: persist_None)
  then show ?thesis using s4 by simp
qed

lemma sound_then_fireExit:
  assumes "sound w" and "exitPromise w = None" and "mod_exit w = Some p"
  shows "sound ((snd (then_fireExit p w))\<lparr>exitPromise := Some (fst (then_fireExit p w))\<rparr>)"
proof -
  have idle: "reacts w = []" "jobs w = []" using sound_idle [OF assms(1,2)] by simp_all
  have p: "p < fresh w" "mod_persist w \<noteq> Some p" using assms(1,3) by (auto simp add: sound_def)
  have absent: "\<And>v. preceded (Bus ExitEvent) (Settled (fresh w) (Fulfilled v)) (trace w)"
    using assms(1) by (intro preceded_absent) (auto simp add: sound_def)
  have cb: "\<And>v. pstates w p = Some (Fulfilled v) \<Longrightarrow> Callback CbExit \<in> set (trace w)"
    using assms(1,3) by (auto simp add: sound_def)
  show ?thesis
    using assms idle p absent cb unfolding sound_def
    by (cases "pstates w p")
      (auto simp add: then_fireExit_def new_promise_def Let_def less_Suc_eq
        split: pstate.splits)
qed

lemma sound_exit: "sound w \<Longrightarrow> sound (snd (exit r w))"
proof (cases "exitPromise w")
  case (Some q)
  assume "sound w"
  then show ?thesis using Some by (simp add: exit_def)
next
  case None
  assume s: "sound w"
  let ?p = "fresh w"
  let ?w2 = "(snd (new_promise w))\<lparr>mod_exit := Some ?p\<rparr>"
  let ?w3 = "snd (module_call RequestExit r ?w2)"
  let ?w4 = "case snd r of Throws e \<Rightarrow> settle ?p (Rejected e) ?w3 | Returns \<Rightarrow> ?w3"
  have idle: "reacts w = []" "jobs w = []" using sound_idle [OF s None] by simp_all
  have s2: "sound ?w2"
    using sound_new_promise [OF s] s None idle unfolding sound_def by auto
  have s3: "sound ?w3" using s2 by (rule sound_module_call)
  have s4: "sound ?w4"
  proof (cases "snd r")
    case Returns
    then show ?thesis using s3 by simp
  next
    case (Throws e)
    have "sound (settle ?p (Rejected e) ?w3)"
      using s3 by (intro sound_settle) simp_all
    then show ?thesis using Throws by simp
  qed
  have e4: "exitPromise ?w4 = None" "mod_exit ?w4 = Some ?p"
    using None by (simp_all split: outcome.splits)
  have "snd (exit r w) = (snd (then_fireExit ?p ?w4))\<lparr>exitPromise := Some (fst (then_fireExit ?p ?w4))\<rparr>"
    using None by (simp add: exit_None Let_def)
  then show ?thesis using sound_then_fireExit [OF s4 e4] by simp
qed

lemma sound_addKey: "sound w \<Longrightarrow> sound (addKey k p t w)"
  by (simp add: addKey_def sound_observe)

lemma sound_fold_addKey: "sound w \<Longrightarrow> sound (fold (\<lambda>k. addKey k p t) ks w)"
  by (induction ks arbitrary: w) (simp_all add: sound_addKey)

lemma sound_host_call: "sound w \<Longrightarrow> sound (host_call c now w)"
  by (cases c)
    (simp_all add: sendKeyEvent_def simulateKeyPress_def sendMouseMotion_def
      sendMouseButton_def Let_def sound_addKey sound_fold_addKey sound_observe)

lemma sound_screenshot: "sound w \<Longrightarrow> sound (snd (screenshot wd ht ptr w))"
  by (simp add: screenshot_def Let_def sound_observe)

lemma sound_step: "sound w \<Longrightarrow> sound (step a w)"
  by (cases a)
    (simp_all add: sound_host_call sound_screenshot sound_persist sound_exit
      sound_fold_invoke sound_microtask)

lemma sound_run: "sound w \<Longrightarrow> sound (run acts w)"
  unfolding run_def by (induction acts arbitrary: w) (simp_all add: sound_step)

lemma sound_module_init: "sound (module_init heap)"
  by (simp add: sound_def module_init_def)

lemma module_init_idle: "exitPromise (module_init heap) = None" "mod_exit (module_init heap) = None"
  by (simp_all add: module_init_def)

lemma sound_reset:
  "sound w \<Longrightarrow> exitPromise w = None \<Longrightarrow>
   sound (w\<lparr>startedAt := now, persistPromise := None, exitPromise := None, freq := 0,
     keyMatrix := Map.empty, wired := True\<rparr>)"
  unfolding sound_def by simp

lemma sound_DirectCommandInterface:
  assumes "sound w" and "exitPromise w = None" and "mod_exit w = None" and "ready < fresh w"
  shows "sound (snd (DirectCommandInterface now r1 r2 ready w))
     \<and> exitPromise (snd (DirectCommandInterface now r1 r2 ready w)) = None
     \<and> mod_exit (snd (DirectCommandInterface now r1 r2 ready w)) = None
     \<and> fresh (snd (DirectCommandInterface now r1 r2 ready w)) = fresh w"
proof -
  let ?w1 = "w\<lparr>startedAt := now, persistPromise := None, exitPromise := None, freq := 0,
     keyMatrix := Map.empty, wired := True\<rparr>"
  let ?w2 = "snd (module_call CallMain r1 ?w1)"
  let ?w3 = "settle ready (Fulfilled Interface) ?w2"
  let ?w4 = "snd (module_call RunRuntime r2 ?w3)"
  have s2: "sound ?w2" using sound_reset [OF assms(1,2)] by (rule sound_module_call)
  have f2: "exitPromise ?w2 = None" "mod_exit ?w2 = None" "fresh ?w2 = fresh w"
    using assms by simp_all
  have s3: "sound ?w3" using s2 f2 assms(4) by (intro sound_settle) simp_all
  have s4: "sound ?w4" using s3 by (rule sound_module_call)
  have f4: "exitPromise ?w4 = None" "mod_exit ?w4 = None" "fresh ?w4 = fresh w"
    using f2 by simp_all
  have "snd (DirectCommandInterface now r1 r2 ready w) = (case snd r1 of Throws e \<Rightarrow> ?w2 | Returns \<Rightarrow> ?w4)"
    by (simp add: DirectCommandInterface_def Let_def split_beta split: outcome.splits)
  then show ?thesis using s2 f2 s4 f4 by (simp split: outcome.splits)
qed

lemma sound_boot: "sound (snd (boot now heap s))"
proof -
  let ?w1 = "snd (module_call Instantiate (on_instantiate s) (module_init heap))"
  let ?w2 = "snd (new_promise ?w1)"
  let ?ci = "fresh ?w1"
  let ?w3 = "snd (DirectCommandInterface now (on_callMain s) (on_runRuntime s) ?ci ?w2)"
  have s1: "sound ?w1" using sound_module_init by (rule sound_module_call)
  have s2: "sound ?w2" using s1 by (rule sound_new_promise)
  have f2: "exitPromise ?w2 = None" "mod_exit ?w2 = None" "?ci < fresh ?w2"
    by (simp_all add: module_init_idle)
  note d = sound_DirectCommandInterface [OF s2 f2, of now "on_callMain s" "on_runRuntime s"]
  have s3: "sound ?w3" using d by simp
  have "sound (settle ?ci (Rejected e) ?w3)" for e
    using s3 d by (intro sound_settle) simp_all
  then show ?thesis
    using s1 s3
    by (simp add: boot_def Let_def split_beta new_promise_def split: outcome.splits sum.splits)
qed

lemma reachable_sound: "reachable w \<Longrightarrow> sound w"
proof (induction rule: reachable.induct)
  case (booted now heap s ci w)
  then show ?case using sound_boot [of now heap s] by simp
next
  case (stepped w a)
  then show ?case by (simp add: sound_step)
next
  case (swapped w)
  then show ?case by simp
qed

subsection \<open>Exit is observed after termination\<close>

lemma started_eq:
  "started = \<lparr>startedAt = 0, persistPromise = None, exitPromise = None, freq = 0,
     keyMatrix = Map.empty, wired = True, mod_persist = None, mod_exit = None,
     mod_err = StartupErrFn, HEAPU8 = [], startupErrorLog = [],
     pstates = [0 \<mapsto> Fulfilled Interface],
     reacts = [], fresh = 1, jobs = [],
     trace = [Call Instantiate, Call CallMain, Settled 0 (Fulfilled Interface), Call RunRuntime]\<rparr>"
  by (simp add: started_def boot_def quiet_def module_call_def module_init_def observe_def
      new_promise_def DirectCommandInterface_def settle_def Let_def)

lemma boot_quiet: "boot 0 [] quiet = (Inr 0, started)"
  by (simp add: started_def boot_def quiet_def module_call_def module_init_def observe_def
      new_promise_def DirectCommandInterface_def settle_def Let_def)

lemma reachable_started: "reachable started"
  by (rule reachable.booted [OF boot_quiet]) (simp add: started_eq)

lemma reachable_run: "reachable w \<Longrightarrow> reachable (run acts w)"
  unfolding run_def by (induction acts arbitrary: w) (simp_all add: reachable.stepped)

lemma exited_trace:
  "trace exited = [Call Instantiate, Call CallMain, Settled 0 (Fulfilled Interface),
      Call RunRuntime, Call RequestExit, Callback CbExit, Settled 1 (Fulfilled Undefined),
      Bus ExitEvent, Settled 2 (Fulfilled Undefined)]"
  "exitPromise exited = Some 2" "pstates exited 2 = Some (Fulfilled Undefined)"
  by (simp_all add: exited_def run_def started_eq exit_def module_call_def observe_def
      new_promise_def then_fireExit_def settle_def invoke_def microtask_def fireExit_def Let_def)

text \<open>
  C4. In every world an interface can be in: each exit event on the event bus comes
  after an invocation of the termination callback \<open>module.exit\<close>; each fulfilment of the
  promise \<open>exit()\<close> returned comes after an exit event, which itself comes after the
  termination callback; and whenever that promise is fulfilled, the exit event has been
  fired and the termination callback has been invoked.
\<close>

theorem C4_exit_after_termination:
  assumes "reachable w"
  shows "(\<forall>pre post. trace w = pre @ Bus ExitEvent # post \<longrightarrow> Callback CbExit \<in> set pre)
       \<and> (\<forall>q v pre post. exitPromise w = Some q \<longrightarrow>
             trace w = pre @ Settled q (Fulfilled v) # post \<longrightarrow>
             (\<exists>pre1 post1. pre = pre1 @ Bus ExitEvent # post1 \<and> Callback CbExit \<in> set pre1))
       \<and> (\<forall>q v. exitPromise w = Some q \<longrightarrow> pstates w q = Some (Fulfilled v) \<longrightarrow>
             Bus ExitEvent \<in> set (trace w) \<and> Callback CbExit \<in> set (trace w))"
proof -
  have s: "sound w" using assms by (rule reachable_sound)
  have a: "preceded (Callback CbExit) (Bus ExitEvent) (trace w)"
    using s by (simp add: sound_def)
  have one: "Callback CbExit \<in> set pre" if "trace w = pre @ Bus ExitEvent # post" for pre post
    using preceded_split [OF a _ that] by simp
  have two: "\<exists>pre1 post1. pre = pre1 @ Bus ExitEvent # post1 \<and> Callback CbExit \<in> set pre1"
    if q: "exitPromise w = Some q" and t: "trace w = pre @ Settled q (Fulfilled v) # post"
    for q v pre post
  proof -
    have "preceded (Bus ExitEvent) (Settled q (Fulfilled v)) (trace w)"
      using s q by (simp add: sound_def)
    from preceded_split [OF this _ t] have "Bus ExitEvent \<in> set pre" by simp
    then obtain pre1 post1 where p: "pre = pre1 @ Bus ExitEvent # post1"
      by (meson split_list)
    then have "trace w = pre1 @ Bus ExitEvent # (post1 @ Settled q (Fulfilled v) # post)"
      using t by simp
    then have "Callback CbExit \<in> set pre1" by (rule one)
    then show ?thesis using p by blast
  qed
  have three: "Bus ExitEvent \<in> set (trace w) \<and> Callback CbExit \<in> set (trace w)"
    if q: "exitPromise w = Some q" and f: "pstates w q = Some (Fulfilled v)" for q v
  proof -
    have b: "Bus ExitEvent \<in> set (trace w)" using s q f by (auto simp add: sound_def)
    then obtain pre post where "trace w = pre @ Bus ExitEvent # post" by (meson split_list)
    then show ?thesis using one [of pre post] b by auto
  qed
  show ?thesis using one two three by blast
qed

theorem C4_witness:
  "reachable exited
   \<and> exitPromise exited = Some 2 \<and> pstates exited 2 = Some (Fulfilled Undefined)
   \<and> trace exited = [Call Instantiate, Call CallMain, Settled 0 (Fulfilled Interface),
        Call RunRuntime, Call RequestExit, Callback CbExit, Settled 1 (Fulfilled Undefined)]
        @ Bus ExitEvent # [Settled 2 (Fulfilled Undefined)]
   \<and> Callback CbExit \<in> set [Call Instantiate, Call CallMain, Settled 0 (Fulfilled Interface),
        Call RunRuntime, Call RequestExit, Callback CbExit, Settled 1 (Fulfilled Undefined)]
   \<and> Bus ExitEvent \<in> set (trace exited)"
proof -
  have r: "reachable exited"
    unfolding exited_def using reachable_started by (rule reachable_run)
  have t: "trace exited = [Call Instantiate, Call CallMain, Settled 0 (Fulfilled Interface),
        Call RunRuntime, Call RequestExit, Callback CbExit, Settled 1 (Fulfilled Undefined)]
        @ Bus ExitEvent # [Settled 2 (Fulfilled Undefined)]"
    by (simp add: exited_trace)
  note c = C4_exit_after_termination [OF r]
  have "Callback CbExit \<in> set [Call Instantiate, Call CallMain, Settled 0 (Fulfilled Interface),
        Call RunRuntime, Call RequestExit, Callback CbExit, Settled 1 (Fulfilled Undefined)]"
    using c t by blast
  moreover have "Bus ExitEvent \<in> set (trace exited)"
    using c exited_trace(2,3) by blast
  ultimately show ?thesis using r t exited_trace(2,3) by blast
qed

subsection \<open>Memoised lifecycle operations\<close>

lemma forwarded_settle [simp]: "forwarded (settle p st w) = forwarded w"
  by (simp add: forwarded_def settle_def observe_def calls_append
      split: option.splits pstate.splits)

lemma forwarded_fields [simp]:
  "forwarded (w\<lparr>mod_persist := a\<rparr>) = forwarded w"
  "forwarded (w\<lparr>mod_exit := b\<rparr>) = forwarded w"
  "forwarded (w\<lparr>persistPromise := c\<rparr>) = forwarded w"
  "forwarded (w\<lparr>exitPromise := d\<rparr>) = forwarded w"
  "forwarded (w\<lparr>freq := f\<rparr>) = forwarded w"
  "forwarded (w\<lparr>HEAPU8 := h\<rparr>) = forwarded w"
  "forwarded (w\<lparr>jobs := js\<rparr>) = forwarded w"
  "forwarded (w\<lparr>mod_err := e\<rparr>) = forwarded w"
  "forwarded (snd (new_promise w)) = forwarded w"
  by (simp_all add: forwarded_def)

lemma count_observe:
  "count_list (forwarded (observe x w)) c =
     count_list (forwarded w) c + (if x = Call c then 1 else 0)"
  by (cases x) (auto simp add: forwarded_observe)

lemma count_err_sink [simp]: "count_list (forwarded (err_sink a w)) c = count_list (forwarded w) c"
  by (simp add: err_sink_def fireMessage_def Let_def forwarded_def observe_def calls_append
      split: sink.splits)

lemma count_invoke:
  "lifecycle c \<Longrightarrow> count_list (forwarded (invoke cb w)) c = count_list (forwarded w) c"
  by (cases cb)
    (auto simp add: invoke_def lifecycle_def fireMessage_def Let_def count_observe
      split: option.splits)

lemma count_fold_invoke:
  "lifecycle c \<Longrightarrow> count_list (forwarded (fold invoke cbs w)) c = count_list (forwarded w) c"
  by (induction cbs arbitrary: w) (simp_all add: count_invoke)

lemma count_module_call:
  "lifecycle c \<Longrightarrow> count_list (forwarded (snd (module_call m r w))) c =
     count_list (forwarded w) c + (if m = c then 1 else 0)"
  by (simp add: module_call_def count_fold_invoke count_observe)

lemma count_then_fireExit [simp]:
  "forwarded (snd (then_fireExit p w)) = forwarded w"
  by (simp add: then_fireExit_def new_promise_def forwarded_def Let_def
      split: option.splits pstate.splits)

lemma count_microtask: "forwarded (microtask w) = forwarded w"
proof (cases "jobs w")
  case Nil
  then show ?thesis by (simp add: microtask_def)
next
  case (Cons j js)
  obtain q st where j: "j = (ThenFireExit q, st)" by (cases j) (metis reaction.exhaust)
  show ?thesis
    by (cases st) (simp_all add: microtask_def Cons j fireExit_def forwarded_observe)
qed

lemma count_addKey:
  "lifecycle c \<Longrightarrow> count_list (forwarded (addKey k p t w)) c = count_list (forwarded w) c"
  by (auto simp add: addKey_forwarded lifecycle_def)

lemma count_fold_addKey:
  "lifecycle c \<Longrightarrow>
   count_list (forwarded (fold (\<lambda>k. addKey k p t) ks w)) c = count_list (forwarded w) c"
  by (induction ks arbitrary: w) (simp_all add: count_addKey)

lemma count_host_call:
  "lifecycle c \<Longrightarrow> count_list (forwarded (host_call i now w)) c = count_list (forwarded w) c"
  by (cases i)
    (auto simp add: sendKeyEvent_def simulateKeyPress_def sendMouseMotion_def
      sendMouseButton_def Let_def count_addKey count_fold_addKey count_observe lifecycle_def)

lemma count_screenshot:
  "lifecycle c \<Longrightarrow>
   count_list (forwarded (snd (screenshot wd ht ptr w))) c = count_list (forwarded w) c"
  by (auto simp add: screenshot_def Let_def count_observe lifecycle_def)

lemma count_persist:
  "lifecycle c \<Longrightarrow>
   count_list (forwarded (snd (persist r w))) c =
     count_list (forwarded w) c + (if persistPromise w = None \<and> c = PackFsToBundle then 1 else 0)"
proof (cases "persistPromise w")
  case (Some p)
  then show ?thesis by (simp add: persist_def)
next
  case None
  assume "lifecycle c"
  then show ?thesis
    using None by (cases "snd r") (auto simp add: persist_None count_module_call)
qed

lemma count_exit:
  "lifecycle c \<Longrightarrow>
   count_list (forwarded (snd (exit r w))) c =
     count_list (forwarded w) c + (if exitPromise w = None \<and> c = RequestExit then 1 else 0)"
proof (cases "exitPromise w")
  case (Some p)
  then show ?thesis by (simp add: exit_def)
next
  case None
  assume "lifecycle c"
  then show ?thesis
    using None by (cases "snd r") (auto simp add: exit_None Let_def count_module_call)
qed

lemma persistPromise_exit [simp]: "persistPromise (snd (exit r w)) = persistPromise w"
proof (cases "exitPromise w")
  case (Some p)
  then show ?thesis by (simp add: exit_def)
next
  case None
  then show ?thesis
    by (cases "snd r")
      (simp_all add: exit_None Let_def then_fireExit_def new_promise_def
        split: option.splits pstate.splits)
qed

lemma exitPromise_persist [simp]: "exitPromise (snd (persist r w)) = exitPromise w"
proof (cases "persistPromise w")
  case (Some p)
  then show ?thesis by (simp add: persist_def)
next
  case None
  then show ?thesis by (cases "snd r") (simp_all add: persist_None)
qed

lemma microtask_frame [simp]:
  "persistPromise (microtask w) = persistPromise w" "exitPromise (microtask w) = exitPromise w"
  "fresh (microtask w) = fresh w" "mod_exit (microtask w) = mod_exit w"
  "mod_persist (microtask w) = mod_persist w" "mod_err (microtask w) = mod_err w"
  "startupErrorLog (microtask w) = startupErrorLog w"
proof -
  have "persistPromise (microtask w) = persistPromise w \<and> exitPromise (microtask w) = exitPromise w
    \<and> fresh (microtask w) = fresh w \<and> mod_exit (microtask w) = mod_exit w
    \<and> mod_persist (microtask w) = mod_persist w \<and> mod_err (microtask w) = mod_err w
    \<and> startupErrorLog (microtask w) = startupErrorLog w"
  proof (cases "jobs w")
    case Nil
    then show ?thesis by (simp add: microtask_def)
  next
    case (Cons j js)
    obtain q st where j: "j = (ThenFireExit q, st)" by (cases j) (metis reaction.exhaust)
    show ?thesis by (cases st) (simp_all add: microtask_def Cons j fireExit_def)
  qed
  then show "persistPromise (microtask w) = persistPromise w"
    "exitPromise (microtask w) = exitPromise w"
    "fresh (microtask w) = fresh w" "mod_exit (microtask w) = mod_exit w"
    "mod_persist (microtask w) = mod_persist w" "mod_err (microtask w) = mod_err w"
    "startupErrorLog (microtask w) = startupErrorLog w"
    by simp_all
qed

lemma addKey_frame [simp]:
  "persistPromise (addKey k p t w) = persistPromise w" "exitPromise (addKey k p t w) = exitPromise w"
  "fresh (addKey k p t w) = fresh w" "pstates (addKey k p t w) = pstates w"
  "jobs (addKey k p t w) = jobs w" "reacts (addKey k p t w) = reacts w"
  "mod_persist (addKey k p t w) = mod_persist w" "mod_exit (addKey k p t w) = mod_exit w"
  by (simp_all add: addKey_def)

lemma fold_addKey_frame [simp]:
  "persistPromise (fold (\<lambda>k. addKey k p t) ks w) = persistPromise w"
  "exitPromise (fold (\<lambda>k. addKey k p t) ks w) = exitPromise w"
  "fresh (fold (\<lambda>k. addKey k p t) ks w) = fresh w"
  "pstates (fold (\<lambda>k. addKey k p t) ks w) = pstates w"
  "jobs (fold (\<lambda>k. addKey k p t) ks w) = jobs w"
  "reacts (fold (\<lambda>k. addKey k p t) ks w) = reacts w"
  "mod_persist (fold (\<lambda>k. addKey k p t) ks w) = mod_persist w"
  "mod_exit (fold (\<lambda>k. addKey k p t) ks w) = mod_exit w"
  by (induction ks arbitrary: w) simp_all

lemma host_call_frame [simp]:
  "persistPromise (host_call i now w) = persistPromise w"
  "exitPromise (host_call i now w) = exitPromise w"
  "fresh (host_call i now w) = fresh w" "pstates (host_call i now w) = pstates w"
  "jobs (host_call i now w) = jobs w" "reacts (host_call i now w) = reacts w"
  "mod_persist (host_call i now w) = mod_persist w" "mod_exit (host_call i now w) = mod_exit w"
  by (cases i; simp add: sendKeyEvent_def simulateKeyPress_def sendMouseMotion_def
      sendMouseButton_def Let_def)+

lemma screenshot_frame [simp]:
  "persistPromise (snd (screenshot wd ht ptr w)) = persistPromise w"
  "exitPromise (snd (screenshot wd ht ptr w)) = exitPromise w"
  "fresh (snd (screenshot wd ht ptr w)) = fresh w"
  "pstates (snd (screenshot wd ht ptr w)) = pstates w"
  "jobs (snd (screenshot wd ht ptr w)) = jobs w"
  "reacts (snd (screenshot wd ht ptr w)) = reacts w"
  "mod_persist (snd (screenshot wd ht ptr w)) = mod_persist w"
  "mod_exit (snd (screenshot wd ht ptr w)) = mod_exit w"
  by (simp_all add: screenshot_def Let_def)

lemma persist_keeps: "persistPromise w = Some p \<Longrightarrow> persistPromise (snd (persist r w)) = Some p"
  by (simp add: persist_def)


lemma step_persisted:
  "persistPromise w = Some p \<Longrightarrow>
   persistPromise (step a w) = Some p
   \<and> count_list (forwarded (step a w)) PackFsToBundle = count_list (forwarded w) PackFsToBundle"
  by (cases a)
    (simp_all add: persist_keeps count_host_call count_screenshot count_persist count_exit
      count_fold_invoke count_microtask lifecycle_def)


lemma run_persisted:
  "persistPromise w = Some p \<Longrightarrow>
   persistPromise (run acts w) = Some p
   \<and> count_list (forwarded (run acts w)) PackFsToBundle = count_list (forwarded w) PackFsToBundle"
  unfolding run_def
proof (induction acts arbitrary: w)
  case Nil
  then show ?case by simp
next
  case (Cons a acts)
  show ?case using Cons.IH [of "step a w"] step_persisted [OF Cons.prems, of a] by simp
qed



lemma exit_first:
  "exitPromise w = None \<Longrightarrow> exitPromise (snd (exit r w)) = Some (fst (exit r w))"
  by (simp add: exit_None Let_def)

lemmas eval_defs = boot_def DosDirect_def quiet_def module_call_def module_init_def
  observe_def new_promise_def DirectCommandInterface_def settle_def Let_def invoke_def
  err_sink_def fireMessage_def exit_def then_fireExit_def microtask_def fireExit_def
  persist_def run_def forwarded_def startup_message_def

lemma started_facts: "persistPromise started = None" "exitPromise started = None"
  by (simp_all add: started_eq)




subsection \<open>A lifecycle request that throws\<close>

lemma invoked_append: "invoked (xs @ ys) = invoked xs @ invoked ys"
  by (induction xs) (auto split: obs.splits)

lemma invoked_settle [simp]: "invoked (trace (settle p st w)) = invoked (trace w)"
  by (simp add: settle_def observe_def invoked_append split: option.splits pstate.splits)

lemma invoked_err_sink [simp]: "invoked (trace (err_sink a w)) = invoked (trace w)"
  by (simp add: err_sink_def fireMessage_def observe_def Let_def invoked_append split: sink.splits)

lemma invoked_invoke:
  "invoked (trace (invoke cb w)) = invoked (trace w) @ (if installed w cb then [cb] else [])"
  by (cases cb)
    (auto simp add: invoke_def fireMessage_def Let_def invoked_append split: option.splits)

lemma invoked_fold_invoke:
  "set (invoked (trace (fold invoke cbs w))) \<subseteq> set (invoked (trace w)) \<union> set cbs"
proof (induction cbs arbitrary: w)
  case Nil
  show ?case by simp
next
  case (Cons cb cbs)
  show ?case using Cons.IH [of "invoke cb w"] by (auto simp add: invoked_invoke split: if_splits)
qed

text \<open>A settled promise stays as it is.\<close>

lemma settle_settled:
  "pstates w p = Some st \<Longrightarrow> st \<noteq> Pending \<Longrightarrow> pstates (settle p' st' w) p = Some st"
  by (auto simp add: settle_def observe_def split: option.splits pstate.splits)

lemma err_sink_pstates [simp]: "pstates (err_sink a w) = pstates w"
  by (simp add: err_sink_def fireMessage_def Let_def split: sink.splits)

lemma invoke_settled:
  "pstates w p = Some st \<Longrightarrow> st \<noteq> Pending \<Longrightarrow> pstates (invoke cb w) p = Some st"
  by (cases cb)
    (auto simp add: invoke_def fireMessage_def Let_def settle_settled split: option.splits)

lemma fold_invoke_settled:
  "pstates w p = Some st \<Longrightarrow> st \<noteq> Pending \<Longrightarrow> pstates (fold invoke cbs w) p = Some st"
  by (induction cbs arbitrary: w) (simp_all add: invoke_settled)

lemma microtask_settled:
  "pstates w p = Some st \<Longrightarrow> st \<noteq> Pending \<Longrightarrow> pstates (microtask w) p = Some st"
proof (cases "jobs w")
  case Nil
  assume "pstates w p = Some st"
  then show ?thesis using Nil by (simp add: microtask_def)
next
  case (Cons j js)
  assume a: "pstates w p = Some st" "st \<noteq> Pending"
  obtain q s where j: "j = (ThenFireExit q, s)" by (cases j) (metis reaction.exhaust)
  have b: "pstates (w\<lparr>jobs := js\<rparr>) p = Some st" "pstates (fireExit (w\<lparr>jobs := js\<rparr>)) p = Some st"
    using a by (simp_all add: fireExit_def)
  show ?thesis
    using settle_settled [OF b(1) a(2)] settle_settled [OF b(2) a(2)] a
    by (cases s) (simp_all add: microtask_def Cons j)
qed

lemma persist_settled:
  assumes "pstates w p = Some st" and "st \<noteq> Pending" and "p < fresh w"
  shows "pstates (snd (persist r w)) p = Some st \<and> p < fresh (snd (persist r w))"
proof (cases "persistPromise w")
  case (Some p')
  then show ?thesis using assms by (simp add: persist_def)
next
  case None
  let ?w2 = "(snd (new_promise w))\<lparr>mod_persist := Some (fresh w)\<rparr>"
  have "pstates ?w2 p = Some st" using assms by simp
  then have "pstates (snd (module_call PackFsToBundle r ?w2)) p = Some st"
    using assms(2) by (simp add: module_call_def fold_invoke_settled)
  then show ?thesis
    using None assms(2,3) by (cases "snd r") (simp_all add: persist_None settle_settled)
qed

lemma then_fireExit_settled:
  "pstates w p = Some st \<Longrightarrow> p < fresh w \<Longrightarrow>
   pstates (snd (then_fireExit p' w)) p = Some st \<and> p < fresh (snd (then_fireExit p' w))"
  by (auto simp add: then_fireExit_def new_promise_def Let_def split: option.splits pstate.splits)

lemma exit_settled:
  assumes "pstates w p = Some st" and "st \<noteq> Pending" and "p < fresh w"
  shows "pstates (snd (exit r w)) p = Some st \<and> p < fresh (snd (exit r w))"
proof (cases "exitPromise w")
  case (Some p')
  then show ?thesis using assms by (simp add: exit_def)
next
  case None
  let ?w2 = "(snd (new_promise w))\<lparr>mod_exit := Some (fresh w)\<rparr>"
  let ?w3 = "snd (module_call RequestExit r ?w2)"
  let ?w4 = "case snd r of Throws e \<Rightarrow> settle (fresh w) (Rejected e) ?w3 | Returns \<Rightarrow> ?w3"
  have "pstates ?w2 p = Some st" using assms by simp
  then have "pstates ?w3 p = Some st"
    using assms(2) by (simp add: module_call_def fold_invoke_settled)
  then have "pstates ?w4 p = Some st \<and> p < fresh ?w4"
    using assms(2,3) by (cases "snd r") (simp_all add: settle_settled)
  then have "pstates (snd (then_fireExit (fresh w) ?w4)) p = Some st
      \<and> p < fresh (snd (then_fireExit (fresh w) ?w4))"
    using then_fireExit_settled by blast
  then show ?thesis using None by (simp add: exit_None Let_def)
qed

lemma step_settled:
  assumes "pstates w p = Some st" and "st \<noteq> Pending" and "p < fresh w"
  shows "pstates (step a w) p = Some st \<and> p < fresh (step a w)"
  using assms
  by (cases a)
    (simp_all add: persist_settled exit_settled fold_invoke_settled microtask_settled)

lemma run_settled:
  "pstates w p = Some st \<Longrightarrow> st \<noteq> Pending \<Longrightarrow> p < fresh w \<Longrightarrow>
   pstates (run acts w) p = Some st"
  unfolding run_def
proof (induction acts arbitrary: w)
  case Nil
  then show ?case by simp
next
  case (Cons a acts)
  show ?case using Cons.IH [of "step a w"] step_settled [OF Cons.prems, of a] Cons.prems(2) by simp
qed

text \<open>While the module does not invoke a slot, the promise behind it stays pending.\<close>

lemma settle_other:
  "p' \<noteq> p \<Longrightarrow> pstates (settle p' st w) p = pstates w p"
  by (simp add: settle_def observe_def split: option.splits pstate.splits)

lemma invoke_persist_pending:
  assumes "sound w" and "mod_persist w = Some p" and "pstates w p = Some Pending"
    and "\<And>a. cb \<noteq> CbPersist a"
  shows "mod_persist (invoke cb w) = Some p \<and> pstates (invoke cb w) p = Some Pending"
proof -
  have "mod_exit w \<noteq> Some p" using assms(1,2) by (auto simp add: sound_def)
  then show ?thesis
    using assms(2,3,4)
    by (cases cb)
      (auto simp add: invoke_def fireMessage_def Let_def settle_other split: option.splits)
qed

lemma fold_invoke_persist_pending:
  assumes "sound w" and "mod_persist w = Some p" and "pstates w p = Some Pending"
    and "\<And>a. CbPersist a \<notin> set cbs"
  shows "mod_persist (fold invoke cbs w) = Some p \<and> pstates (fold invoke cbs w) p = Some Pending"
  using assms
proof (induction cbs arbitrary: w)
  case Nil
  then show ?case by simp
next
  case (Cons cb cbs)
  have c: "\<And>a. cb \<noteq> CbPersist a" using Cons.prems(4) by auto
  have k: "mod_persist (invoke cb w) = Some p \<and> pstates (invoke cb w) p = Some Pending"
    using invoke_persist_pending [OF Cons.prems(1,2,3) c] .
  have "\<And>a. CbPersist a \<notin> set cbs" using Cons.prems(4) by auto
  then show ?case
    using Cons.IH [of "invoke cb w"] sound_invoke [OF Cons.prems(1)] k by simp
qed

lemma persist_boom:
  "fst (persist ([], Throws (Error ''boom'')) started) = 1"
  by (simp add: started_eq eval_defs)

text \<open>
  C5, as stated, fails: when \<open>_packFsToBundle\<close> invokes \<open>module.persist\<close> and then
  throws, the callback has run and the promise is fulfilled with the archive; the
  \<open>reject\<close> of the \<open>catch\<close> comes too late to change it.
\<close>

theorem C5_counterexample:
  "pstates (snd (persist ([CbPersist [1, 2]], Throws (Error ''late'')) started))
      (fst (persist ([CbPersist [1, 2]], Throws (Error ''late'')) started))
     = Some (Fulfilled (Archive [1, 2]))
   \<and> pstates (snd (persist ([CbPersist [1, 2]], Throws (Error ''late'')) started))
      (fst (persist ([CbPersist [1, 2]], Throws (Error ''late'')) started))
     \<noteq> Some (Rejected (Error ''late''))
   \<and> invoked (trace (snd (persist ([CbPersist [1, 2]], Throws (Error ''late'')) started)))
     = [CbPersist [1, 2]]"
  by (simp add: persist_def started_eq module_call_def new_promise_def observe_def invoke_def
      settle_def Let_def)

text \<open>
  C5, amended. If \<open>_packFsToBundle\<close> throws during the first \<open>persist()\<close> call without
  having invoked the archive callback, then the memoised promise is rejected with
  exactly the thrown error; the callback has not run during the call and stays
  registered as \<open>module.persist\<close>; and whatever happens afterwards, the module
  invoking the callback included, the promise stays rejected with that error and
  \<open>persist()\<close> keeps returning it.
\<close>

theorem C5_persist_rejects_with_thrown_error:
  assumes "reachable w" and "persistPromise w = None" and "\<forall>a. CbPersist a \<notin> set cbs"
  shows "persistPromise (snd (persist (cbs, Throws e) w)) = Some (fst (persist (cbs, Throws e) w))
       \<and> pstates (snd (persist (cbs, Throws e) w)) (fst (persist (cbs, Throws e) w))
           = Some (Rejected e)
       \<and> mod_persist (snd (persist (cbs, Throws e) w)) = Some (fst (persist (cbs, Throws e) w))
       \<and> (\<forall>a. CbPersist a \<in> set (invoked (trace (snd (persist (cbs, Throws e) w))))
             \<longrightarrow> CbPersist a \<in> set (invoked (trace w)))
       \<and> (\<forall>acts r. pstates (run acts (snd (persist (cbs, Throws e) w)))
               (fst (persist (cbs, Throws e) w)) = Some (Rejected e)
             \<and> persist r (run acts (snd (persist (cbs, Throws e) w)))
               = (fst (persist (cbs, Throws e) w), run acts (snd (persist (cbs, Throws e) w))))"
proof -
  let ?p = "fresh w"
  let ?w2 = "(snd (new_promise w))\<lparr>mod_persist := Some ?p\<rparr>"
  let ?w2' = "observe (Call PackFsToBundle) ?w2"
  let ?w3 = "fold invoke cbs ?w2'"
  let ?w4 = "settle ?p (Rejected e) ?w3"
  let ?w5 = "?w4\<lparr>persistPromise := Some ?p\<rparr>"
  have s: "sound w" using assms(1) by (rule reachable_sound)
  have s2: "sound ?w2"
    using sound_new_promise [OF s] s unfolding sound_def by auto
  have s2': "sound ?w2'" using s2 by (simp add: sound_observe)
  have k: "mod_persist ?w3 = Some ?p \<and> pstates ?w3 ?p = Some Pending"
    using assms(3) by (intro fold_invoke_persist_pending [OF s2']) simp_all
  have eq: "persist (cbs, Throws e) w = (?p, ?w5)"
    using assms(2) by (simp add: persist_None module_call_def)
  have st: "pstates ?w5 ?p = Some (Rejected e)" "mod_persist ?w5 = Some ?p"
    "persistPromise ?w5 = Some ?p" "?p < fresh ?w5"
    using k by (simp_all add: settle_def observe_def)
  have tr: "set (invoked (trace ?w5)) \<subseteq> set (invoked (trace w)) \<union> set cbs"
    using invoked_fold_invoke [of cbs ?w2'] by (simp add: invoked_append)
  have later: "pstates (run acts ?w5) ?p = Some (Rejected e)
      \<and> persist r (run acts ?w5) = (?p, run acts ?w5)" for acts r
    using run_settled [OF st(1) _ st(4), of acts] run_persisted [OF st(3), of acts]
    by (simp add: persist_def)
  show ?thesis
    unfolding eq fst_conv snd_conv
    using st tr assms(3) later by blast
qed

theorem C5_witness:
  "reachable started \<and> persistPromise started = None
   \<and> pstates (snd (persist ([], Throws (Error ''boom'')) started)) 1
       = Some (Rejected (Error ''boom''))
   \<and> mod_persist (snd (persist ([], Throws (Error ''boom'')) started)) = Some 1
   \<and> pstates (run [Tick [CbPersist [7]], Microtask]
        (snd (persist ([], Throws (Error ''boom'')) started))) 1
       = Some (Rejected (Error ''boom''))"
proof -
  have h: "\<forall>a. CbPersist a \<notin> set []" by simp
  show ?thesis
    using C5_persist_rejects_with_thrown_error
      [OF reachable_started started_facts(1) h, of "Error ''boom''"]
      reachable_started started_facts(1) persist_boom
    by simp
qed

lemma invoke_exit_pending:
  assumes "sound w" and "mod_exit w = Some p" and "pstates w p = Some Pending"
    and "cb \<noteq> CbExit"
  shows "pstates (invoke cb w) p = Some Pending"
proof -
  have "mod_persist w \<noteq> Some p" using assms(1,2) by (auto simp add: sound_def)
  then show ?thesis
    using assms(2,3,4)
    by (cases cb)
      (auto simp add: invoke_def fireMessage_def Let_def settle_other split: option.splits)
qed

lemma fold_invoke_exit_pending:
  assumes "sound w" and "mod_exit w = Some p" and "pstates w p = Some Pending"
    and "CbExit \<notin> set cbs"
  shows "pstates (fold invoke cbs w) p = Some Pending"
  using assms
proof (induction cbs arbitrary: w)
  case Nil
  then show ?case by simp
next
  case (Cons cb cbs)
  have c: "cb \<noteq> CbExit" "CbExit \<notin> set cbs" using Cons.prems(4) by auto
  show ?case
    using Cons.IH [of "invoke cb w"] sound_invoke [OF Cons.prems(1)]
      invoke_exit_pending [OF Cons.prems(1,2,3) c(1)] Cons.prems(2) c(2)
    by simp
qed



lemma exit_failed_fields [simp]:
  "exit_failed e q (w\<lparr>keyMatrix := km\<rparr>) = exit_failed e q w"
  "exit_failed e q (w\<lparr>freq := f\<rparr>) = exit_failed e q w"
  "exit_failed e q (w\<lparr>HEAPU8 := h\<rparr>) = exit_failed e q w"
  "exit_failed e q (w\<lparr>startupErrorLog := l\<rparr>) = exit_failed e q w"
  "exit_failed e q (w\<lparr>mod_err := s\<rparr>) = exit_failed e q w"
  "exit_failed e q (w\<lparr>persistPromise := pp\<rparr>) = exit_failed e q w"
  "exit_failed e q (w\<lparr>mod_persist := mp\<rparr>) = exit_failed e q w"
  by (simp_all add: exit_failed_def)













lemma drain_idle: "jobs w = [] \<Longrightarrow> drain w = w"
  by (subst drain.simps) simp

lemma drain_busy: "jobs w \<noteq> [] \<Longrightarrow> drain w = drain (microtask w)"
  by (subst drain.simps) simp

lemma exit_failed_drain:
  assumes "exit_failed e q w"
  shows "pstates (drain w) q = Some (Rejected e)"
proof (cases "jobs w = []")
  case True
  then show ?thesis using assms by (auto simp add: drain_idle exit_failed_def)
next
  case False
  have m: "jobs (microtask w) = []" "pstates (microtask w) q = Some (Rejected e)"
    using assms False
    by (auto simp add: exit_failed_def microtask_def settle_def observe_def)
  show ?thesis using m by (simp add: drain_busy [OF False] drain_idle)
qed

lemma exit_throws:
  assumes "sound w" and "exitPromise w = None" and "CbExit \<notin> set cbs"
  shows "exit_failed e (fst (exit (cbs, Throws e) w)) (snd (exit (cbs, Throws e) w))"
proof -
  let ?p = "fresh w"
  let ?w2 = "(snd (new_promise w))\<lparr>mod_exit := Some ?p\<rparr>"
  let ?w2' = "observe (Call RequestExit) ?w2"
  let ?w3 = "fold invoke cbs ?w2'"
  let ?w4 = "settle ?p (Rejected e) ?w3"
  have idle: "reacts w = []" "jobs w = []" using sound_idle [OF assms(1,2)] by simp_all
  have s2: "sound ?w2"
    using sound_new_promise [OF assms(1)] assms(1,2) idle unfolding sound_def by auto
  have s2': "sound ?w2'" using s2 by (simp add: sound_observe)
  have s3: "sound ?w3" using s2' by (rule sound_fold_invoke)
  have p3: "pstates ?w3 ?p = Some Pending"
    using assms(3) by (intro fold_invoke_exit_pending [OF s2']) simp_all
  have s4: "sound ?w4" using s3 by (intro sound_settle) simp_all
  have e4: "exitPromise ?w4 = None" using assms(2) by simp
  have i4: "reacts ?w4 = []" "jobs ?w4 = []" using sound_idle [OF s4 e4] by simp_all
  have b4: "Bus ExitEvent \<notin> set (trace ?w4)" using s4 e4 by (simp add: sound_def)
  have p4: "pstates ?w4 ?p = Some (Rejected e)"
    using p3 by (simp add: settle_def observe_def)
  have eq: "exit (cbs, Throws e) w =
      (fst (then_fireExit ?p ?w4),
       (snd (then_fireExit ?p ?w4))\<lparr>exitPromise := Some (fst (then_fireExit ?p ?w4))\<rparr>)"
    using assms(2) by (simp add: exit_None Let_def module_call_def)
  have ne: "fresh ?w4 \<noteq> ?p" by simp
  show ?thesis
    unfolding eq fst_conv snd_conv
    using i4 b4 p4 ne
    by (simp add: exit_failed_def then_fireExit_def new_promise_def Let_def)
qed





subsection \<open>Startup handshake\<close>

lemma diagnostics_append: "diagnostics (xs @ ys) = diagnostics xs @ diagnostics ys"
  by (induction xs rule: diagnostics.induct) simp_all

lemma logged_observe:
  "logged w \<Longrightarrow> diagnostics [x] = [] \<Longrightarrow> logged (observe x w)"
  by (simp add: logged_def startup_message_def diagnostics_append)

lemma logged_settle: "logged w \<Longrightarrow> logged (settle p st w)"
  by (simp add: logged_def startup_message_def settle_def observe_def diagnostics_append
      split: option.splits pstate.splits)

lemma logged_fields [simp]:
  "logged (w\<lparr>mod_persist := a\<rparr>) = logged w"
  "logged (w\<lparr>mod_exit := b\<rparr>) = logged w"
  "logged (w\<lparr>persistPromise := c\<rparr>) = logged w"
  "logged (w\<lparr>exitPromise := d\<rparr>) = logged w"
  "logged (w\<lparr>freq := f\<rparr>) = logged w"
  "logged (w\<lparr>jobs := js\<rparr>) = logged w"
  "logged (w\<lparr>startedAt := t\<rparr>) = logged w"
  "logged (w\<lparr>keyMatrix := km\<rparr>) = logged w"
  "logged (w\<lparr>wired := wi\<rparr>) = logged w"
  "logged (snd (new_promise w)) = logged w"
  by (simp_all add: logged_def startup_message_def new_promise_def)

lemma logged_invoke: "logged w \<Longrightarrow> logged (invoke cb w)"
proof (cases cb)
  case (CbErr args)
  assume "logged w"
  then show ?thesis
    by (simp add: CbErr invoke_def err_sink_def fireMessage_def Let_def logged_def startup_message_def
        diagnostics_append)
next
  case (CbPrintErr args)
  assume "logged w"
  then show ?thesis
    by (simp add: CbPrintErr invoke_def err_sink_def fireMessage_def Let_def logged_def startup_message_def
        diagnostics_append)
qed (auto simp add: invoke_def fireMessage_def Let_def logged_observe logged_settle
    split: option.splits)

lemma logged_fold_invoke: "logged w \<Longrightarrow> logged (fold invoke cbs w)"
  by (induction cbs arbitrary: w) (simp_all add: logged_invoke)

lemma logged_module_call: "logged w \<Longrightarrow> logged (snd (module_call c r w))"
  by (simp add: module_call_def logged_fold_invoke logged_observe)

lemma logged_microtask: "logged w \<Longrightarrow> logged (microtask w)"
proof (cases "jobs w")
  case Nil
  assume "logged w"
  then show ?thesis using Nil by (simp add: microtask_def)
next
  case (Cons j js)
  assume l: "logged w"
  obtain q st where j: "j = (ThenFireExit q, st)" by (cases j) (metis reaction.exhaust)
  show ?thesis
    using l
    by (cases st)
      (simp_all add: microtask_def Cons j fireExit_def logged_settle logged_observe)
qed

lemma logged_then_fireExit: "logged w \<Longrightarrow> logged (snd (then_fireExit p w))"
  by (simp add: then_fireExit_def new_promise_def Let_def logged_def startup_message_def
      split: option.splits pstate.splits)

lemma logged_exit: "logged w \<Longrightarrow> logged (snd (exit r w))"
proof (cases "exitPromise w")
  case (Some q)
  assume "logged w"
  then show ?thesis using Some by (simp add: exit_def)
next
  case None
  assume l: "logged w"
  let ?w3 = "snd (module_call RequestExit r ((snd (new_promise w))\<lparr>mod_exit := Some (fresh w)\<rparr>))"
  have l3: "logged ?w3" using l by (simp add: logged_module_call)
  show ?thesis
    using None l3
    by (cases "snd r") (simp_all add: exit_None Let_def logged_then_fireExit logged_settle)
qed

text \<open>What \<open>drain\<close> keeps, from what each job keeps.\<close>

lemma drain_keeps:
  assumes "\<And>w. P w \<Longrightarrow> P (microtask w)" and "P w"
  shows "P (drain w)"
  using assms(2)
proof (induction w rule: drain.induct)
  case (1 w)
  show ?case
  proof (cases "jobs w = []")
    case True
    then show ?thesis using "1.prems" by (simp add: drain_idle)
  next
    case False
    then show ?thesis using "1.IH" [OF False] assms(1) "1.prems" by (simp add: drain_busy)
  qed
qed

lemma drain_jobs: "jobs (drain w) = []"
proof (induction w rule: drain.induct)
  case (1 w)
  show ?case
  proof (cases "jobs w = []")
    case True
    then show ?thesis by (simp add: drain_idle)
  next
    case False
    then show ?thesis using "1.IH" [OF False] by (simp add: drain_busy)
  qed
qed

lemma logged_drain: "logged w \<Longrightarrow> logged (drain w)"
  by (rule drain_keeps [of logged]) (simp_all add: logged_microtask)

lemma sound_drain: "sound w \<Longrightarrow> sound (drain w)"
  by (rule drain_keeps [of sound]) (simp_all add: sound_microtask)

lemma drain_frame:
  "exitPromise (drain w) = exitPromise w \<and> forwarded (drain w) = forwarded w"
  by (rule drain_keeps [of "\<lambda>v. exitPromise v = exitPromise w \<and> forwarded v = forwarded w"])
    (simp_all add: count_microtask)

lemma drain_settled:
  "pstates w p = Some st \<Longrightarrow> st \<noteq> Pending \<Longrightarrow> pstates (drain w) p = Some st"
  by (rule drain_keeps [of "\<lambda>v. pstates v p = Some st"]) (simp_all add: microtask_settled)

text \<open>The second half of \<open>DosDirect\<close>: waiting for \<open>exit()\<close>.\<close>

lemma await_exit_result:
  assumes "await_exit q ts w = (res, w')" and "logged w"
  shows "res = (case pstates w' q of
             Some (Fulfilled v) \<Rightarrow>
               Failed (Error (startup_message w'))
           | Some (Rejected e) \<Rightarrow> Failed e
           | _ \<Rightarrow> Suspended)
       \<and> res \<noteq> Ready"
  using assms
proof (induction ts arbitrary: w)
  case Nil
  then show ?case
    by (auto simp add: logged_def split: option.splits pstate.splits)
next
  case (Cons t ts)
  show ?case
  proof (cases "\<exists>st. pstates w q = Some st \<and> st \<noteq> Pending")
    case True
    then show ?thesis
      using Cons.prems by (auto simp add: logged_def split: option.splits pstate.splits)
  next
    case False
    let ?w = "drain (fold invoke t w)"
    have a: "await_exit q ts ?w = (res, w')"
      using Cons.prems(1) False by (auto split: option.splits pstate.splits)
    have l: "logged ?w" using Cons.prems(2) by (simp add: logged_drain logged_fold_invoke)
    show ?thesis using Cons.IH [OF a l] .
  qed
qed

lemma await_exit_frame:
  "exitPromise (snd (await_exit q ts w)) = exitPromise w
   \<and> count_list (forwarded (snd (await_exit q ts w))) RequestExit
       = count_list (forwarded w) RequestExit"
proof (induction ts arbitrary: w)
  case Nil
  show ?case by (simp split: option.splits pstate.splits)
next
  case (Cons t ts)
  have f: "exitPromise (drain (fold invoke t w)) = exitPromise w"
    "count_list (forwarded (drain (fold invoke t w))) RequestExit
       = count_list (forwarded w) RequestExit"
    by (simp_all add: drain_frame count_fold_invoke lifecycle_def)
  show ?case
    using Cons.IH [of "drain (fold invoke t w)"] f
    by (simp split: option.splits pstate.splits)
qed

text \<open>The first half: what \<open>boot\<close> leaves when instantiation and construction complete.\<close>

lemma invoke_unrequested:
  "mod_persist w = None \<Longrightarrow> mod_exit w = None \<Longrightarrow>
   pstates (invoke cb w) = pstates w \<and> mod_persist (invoke cb w) = None"
  by (cases cb) (auto simp add: invoke_def fireMessage_def Let_def)

lemma fold_invoke_unrequested:
  "mod_persist w = None \<Longrightarrow> mod_exit w = None \<Longrightarrow>
   pstates (fold invoke cbs w) = pstates w \<and> mod_persist (fold invoke cbs w) = None"
proof (induction cbs arbitrary: w)
  case Nil
  then show ?case by simp
next
  case (Cons cb cbs)
  show ?case
    using Cons.IH [of "invoke cb w"] invoke_unrequested [OF Cons.prems, of cb] Cons.prems(2)
    by simp
qed

lemma boot_completes:
  assumes "snd (on_instantiate s) = Returns" and "snd (on_callMain s) = Returns"
  shows "fst (boot now heap s) = Inr 0
       \<and> pstates (snd (boot now heap s)) 0 = Some (Fulfilled Interface)
       \<and> logged (snd (boot now heap s))
       \<and> exitPromise (snd (boot now heap s)) = None
       \<and> count_list (forwarded (snd (boot now heap s))) RequestExit = 0"
proof -
  let ?w0 = "module_init heap"
  let ?w1 = "snd (module_call Instantiate (on_instantiate s) ?w0)"
  let ?w2 = "snd (new_promise ?w1)"
  let ?w2' = "?w2\<lparr>startedAt := now, persistPromise := None, exitPromise := None, freq := 0,
                 keyMatrix := Map.empty, wired := True\<rparr>"
  let ?w3 = "snd (module_call CallMain (on_callMain s) ?w2')"
  let ?w4 = "settle 0 (Fulfilled Interface) ?w3"
  let ?w5 = "snd (module_call RunRuntime (on_runRuntime s) ?w4)"
  have f1: "fresh ?w1 = 0" "mod_exit ?w1 = None" "exitPromise ?w1 = None"
    by (simp_all add: module_init_def)
  have m1: "mod_persist ?w1 = None"
    using fold_invoke_unrequested [of "observe (Call Instantiate) ?w0" "fst (on_instantiate s)"]
    by (simp add: module_call_def module_init_def)
  have p3: "pstates ?w3 0 = Some Pending"
    using fold_invoke_unrequested [of "observe (Call CallMain) ?w2'" "fst (on_callMain s)"] f1 m1
    by (simp add: module_call_def)
  have p4: "pstates ?w4 0 = Some (Fulfilled Interface)"
    using p3 by (simp add: settle_def observe_def)
  have p5: "pstates ?w5 0 = Some (Fulfilled Interface)"
    using p4 by (simp add: module_call_def fold_invoke_settled)
  have l0: "logged ?w0" by (simp add: logged_def startup_message_def module_init_def)
  have l5: "logged ?w5"
    using l0 by (simp add: logged_module_call logged_settle)
  have c0: "count_list (forwarded ?w0) RequestExit = 0"
    by (simp add: forwarded_def module_init_def)
  have c2: "forwarded ?w2' = forwarded ?w1"
    by (simp add: forwarded_def)
  have c5: "count_list (forwarded ?w5) RequestExit = 0"
    by (simp add: count_module_call lifecycle_def c2 c0)
  have e5: "exitPromise ?w5 = None" by simp
  have b: "boot now heap s =
      (case snd (on_runRuntime s) of
         Throws e \<Rightarrow> (Inr 0, settle 0 (Rejected e) ?w5)
       | Returns \<Rightarrow> (Inr 0, ?w5))"
    using assms f1
    by (cases "snd (on_runRuntime s)")
      (simp_all add: boot_def DirectCommandInterface_def Let_def split_beta)
  show ?thesis
  proof (cases "snd (on_runRuntime s)")
    case Returns
    then show ?thesis using b p5 l5 c5 e5 by simp
  next
    case (Throws e)
    have "pstates (settle 0 (Rejected e) ?w5) 0 = Some (Fulfilled Interface)"
      using p5 by (simp add: settle_settled)
    then show ?thesis using b Throws l5 c5 e5 by (simp add: logged_settle)
  qed
qed

lemma startup_message_empty: "(startup_message w = []) = (diagnostics (trace w) = [])"
  by (cases "diagnostics (trace w)") (simp_all add: startup_message_def)

lemma logged_message: "logged w \<Longrightarrow> startupErrorLog w = startup_message w"
  by (simp add: logged_def)

lemma fold_invoke_exit_fulfilled:
  assumes "sound w" and "mod_exit w = Some p" and "pstates w p = Some Pending"
    and "CbExit \<in> set cbs"
  shows "pstates (fold invoke cbs w) p = Some (Fulfilled Undefined)"
  using assms
proof (induction cbs arbitrary: w)
  case Nil
  then show ?case by simp
next
  case (Cons cb cbs)
  show ?case
  proof (cases "cb = CbExit")
    case True
    have "pstates (invoke cb w) p = Some (Fulfilled Undefined)"
      using Cons.prems(2,3) True by (simp add: invoke_def settle_def observe_def)
    then show ?thesis by (simp add: fold_invoke_settled)
  next
    case False
    then have "CbExit \<in> set cbs" using Cons.prems(4) by auto
    then show ?thesis
      using Cons.IH [of "invoke cb w"] sound_invoke [OF Cons.prems(1)]
        invoke_exit_pending [OF Cons.prems(1,2,3) False] Cons.prems(2)
      by simp
  qed
qed

lemma then_fireExit_fst [simp]: "fst (then_fireExit p w) = fresh w"
  by (simp add: then_fireExit_def new_promise_def Let_def split: option.splits pstate.splits)

lemma exit_confirms:
  assumes "sound w" and "exitPromise w = None" and "CbExit \<in> set (fst r)"
  shows "pstates (drain (snd (exit r w))) (fst (exit r w)) = Some (Fulfilled Undefined)"
proof -
  let ?p = "fresh w"
  let ?w2 = "(snd (new_promise w))\<lparr>mod_exit := Some ?p\<rparr>"
  let ?w2' = "observe (Call RequestExit) ?w2"
  let ?w3 = "fold invoke (fst r) ?w2'"
  let ?w4 = "case snd r of Throws e \<Rightarrow> settle ?p (Rejected e) ?w3 | Returns \<Rightarrow> ?w3"
  let ?q = "fresh ?w4"
  let ?w5 = "(snd (then_fireExit ?p ?w4))\<lparr>exitPromise := Some ?q\<rparr>"
  have idle: "reacts w = []" "jobs w = []" using sound_idle [OF assms(1,2)] by simp_all
  have s2: "sound ?w2"
    using sound_new_promise [OF assms(1)] assms(1,2) idle unfolding sound_def by auto
  have s2': "sound ?w2'" using s2 by (simp add: sound_observe)
  have s3: "sound ?w3" using s2' by (rule sound_fold_invoke)
  have p3: "pstates ?w3 ?p = Some (Fulfilled Undefined)"
    using assms(3) by (intro fold_invoke_exit_fulfilled [OF s2']) simp_all
  have s4: "sound ?w4"
  proof (cases "snd r")
    case Returns
    then show ?thesis using s3 by simp
  next
    case (Throws e)
    have "sound (settle ?p (Rejected e) ?w3)" using s3 by (intro sound_settle) simp_all
    then show ?thesis using Throws by simp
  qed
  have p4: "pstates ?w4 ?p = Some (Fulfilled Undefined)"
    using p3 by (cases "snd r") (simp_all add: settle_settled)
  have e4: "exitPromise ?w4 = None" using assms(2) by (cases "snd r") simp_all
  have f4: "?q = Suc ?p" by (cases "snd r") simp_all
  have i4: "reacts ?w4 = []" "jobs ?w4 = []" using sound_idle [OF s4 e4] by simp_all
  have eq: "exit r w = (?q, ?w5)"
    using assms(2) by (cases "snd r") (simp_all add: exit_None Let_def module_call_def)
  have j5: "jobs ?w5 = [(ThenFireExit ?q, Fulfilled Undefined)]" "pstates ?w5 ?q = Some Pending"
    using p4 i4 f4 by (simp_all add: then_fireExit_def new_promise_def Let_def)
  have "pstates (microtask ?w5) ?q = Some (Fulfilled Undefined)"
    using j5 by (simp add: microtask_def settle_def observe_def fireExit_def)
  then have "pstates (drain (microtask ?w5)) ?q = Some (Fulfilled Undefined)"
    by (simp add: drain_settled)
  moreover have "drain ?w5 = drain (microtask ?w5)"
    using j5(1) by (intro drain_busy) simp
  ultimately show ?thesis unfolding eq fst_conv snd_conv by simp
qed

lemma await_exit_settled:
  "pstates w q = Some (Fulfilled v) \<Longrightarrow>
     await_exit q ts w = (Failed (Error (startupErrorLog w)), w)"
  "pstates w q = Some (Rejected e) \<Longrightarrow> await_exit q ts w = (Failed e, w)"
  by (cases ts; simp)+

lemma DosDirect_completes:
  assumes "snd (on_instantiate s) = Returns" and "snd (on_callMain s) = Returns"
  shows "DosDirect now heap s =
     (if diagnostics (trace (snd (boot now heap s))) = []
      then (Ready, (snd (boot now heap s))\<lparr>mod_err := ErrFn\<rparr>)
      else await_exit (fst (exit (on_requestExit s) (snd (boot now heap s)))) (afterwards s)
             (drain (snd (exit (on_requestExit s) (snd (boot now heap s))))))"
proof -
  let ?w = "snd (boot now heap s)"
  note b = boot_completes [OF assms, of now heap]
  have "sound ?w" by (rule sound_boot)
  then have "jobs ?w = []" using b sound_idle by blast
  then have d: "drain ?w = ?w" by (rule drain_idle)
  have l: "(length (startupErrorLog ?w) > 0) = (diagnostics (trace ?w) \<noteq> [])"
    using b logged_message [of ?w] startup_message_empty [of ?w] by simp
  have e: "boot now heap s = (Inr 0, ?w)" using b by (metis prod.collapse)
  show ?thesis
    unfolding DosDirect_def
    by (subst e) (simp add: d b l Let_def split_beta del: length_greater_0_conv)
qed

lemma boot_noisy:
  "diagnostics (trace (snd (boot 0 [] noisy))) = [''[1]'']"
  "diagnostics (trace (snd (boot 0 [] stubborn))) = [''[1]'']"
  by (simp_all add: noisy_def stubborn_def eval_defs)

text \<open>
  C2, as stated, fails: a module prints a diagnostic during \<open>callMain\<close> and its
  \<open>_requestExit\<close> throws. \<open>DosDirect\<close> requests exit, and the \<open>await\<close> of the rejected
  exit promise rejects the handshake with the error \<open>_requestExit\<close> threw, whose message
  holds no diagnostic; the \<open>throw\<close> of the startup error is never reached.
\<close>

theorem C2_counterexample:
  "diagnostics (trace (snd (boot 0 [] stubborn))) = [''[1]'']
   \<and> count_list (forwarded (snd (DosDirect 0 [] stubborn))) RequestExit = 1
   \<and> fst (DosDirect 0 [] stubborn) = Failed (Error ''abort'')
   \<and> fst (DosDirect 0 [] stubborn) \<noteq> Failed (Error (''[1]'' @ [CHR 0x0A]))"
  by (simp add: stubborn_def eval_defs drain.simps)

text \<open>
  C2, amended. Let instantiation and construction complete (\<open>wasm.instantiate\<close> and
  \<open>callMain\<close> return). If no diagnostic has been emitted through the error sinks when
  \<open>DosDirect\<close> inspects the log, the error sinks are swapped for the forwarding-only
  \<open>errFn\<close> and the interface is returned. If any has been emitted, \<open>DosDirect\<close> never
  returns the interface and requests exit on it, once; what it does then follows the
  promise of \<open>exit()\<close>: when that is fulfilled, as it is when the module invokes
  \<open>module.exit\<close> during \<open>_requestExit\<close>, \<open>DosDirect\<close> rejects with an error whose message
  is every diagnostic emitted up to then, each followed by a newline, concatenated in
  emission order; when it is rejected, as it is when \<open>_requestExit\<close> throws before the
  module has invoked \<open>module.exit\<close>, \<open>DosDirect\<close> rejects with that error; and while it
  is pending, \<open>DosDirect\<close> is pending.
\<close>

theorem C2_startup_handshake:
  assumes "snd (on_instantiate s) = Returns" and "snd (on_callMain s) = Returns"
  shows "(diagnostics (trace (snd (boot now heap s))) = [] \<longrightarrow>
            DosDirect now heap s = (Ready, (snd (boot now heap s))\<lparr>mod_err := ErrFn\<rparr>))
       \<and> (diagnostics (trace (snd (boot now heap s))) \<noteq> [] \<longrightarrow>
            fst (DosDirect now heap s) \<noteq> Ready
          \<and> count_list (forwarded (snd (DosDirect now heap s))) RequestExit = 1
          \<and> exitPromise (snd (DosDirect now heap s))
              = Some (fst (exit (on_requestExit s) (snd (boot now heap s))))
          \<and> fst (DosDirect now heap s) =
              (case pstates (snd (DosDirect now heap s))
                      (fst (exit (on_requestExit s) (snd (boot now heap s)))) of
                 Some (Fulfilled v) \<Rightarrow>
                   Failed (Error (startup_message (snd (DosDirect now heap s))))
               | Some (Rejected e) \<Rightarrow> Failed e
               | _ \<Rightarrow> Suspended)
          \<and> (CbExit \<in> set (fst (on_requestExit s)) \<longrightarrow>
                fst (DosDirect now heap s)
                  = Failed (Error (startup_message (snd (DosDirect now heap s)))))
          \<and> (\<forall>e. CbExit \<notin> set (fst (on_requestExit s)) \<longrightarrow>
                snd (on_requestExit s) = Throws e \<longrightarrow> fst (DosDirect now heap s) = Failed e))"
proof (intro conjI impI allI)
  assume "diagnostics (trace (snd (boot now heap s))) = []"
  then show "DosDirect now heap s = (Ready, (snd (boot now heap s))\<lparr>mod_err := ErrFn\<rparr>)"
    by (simp add: DosDirect_completes [OF assms])
next
  let ?w = "snd (boot now heap s)"
  let ?q = "fst (exit (on_requestExit s) ?w)"
  let ?w2 = "snd (exit (on_requestExit s) ?w)"
  let ?res = "fst (DosDirect now heap s)"
  let ?w' = "snd (DosDirect now heap s)"
  assume n: "diagnostics (trace ?w) \<noteq> []"
  note b = boot_completes [OF assms, of now heap]
  have s: "sound ?w" by (rule sound_boot)
  have d: "DosDirect now heap s = await_exit ?q (afterwards s) (drain ?w2)"
    using n by (simp add: DosDirect_completes [OF assms])
  then have a: "await_exit ?q (afterwards s) (drain ?w2) = (?res, ?w')" by simp
  have l2: "logged (drain ?w2)" using b by (simp add: logged_drain logged_exit)
  note r = await_exit_result [OF a l2]
  note f = await_exit_frame [of ?q "afterwards s" "drain ?w2"]
  show "?res \<noteq> Ready" using r by blast
  show "count_list (forwarded ?w') RequestExit = 1"
    using f b by (simp add: d drain_frame count_exit lifecycle_def)
  show "exitPromise ?w' = Some ?q"
    using f b by (simp add: d drain_frame exit_first)
  show "?res = (case pstates ?w' ?q of
                 Some (Fulfilled v) \<Rightarrow> Failed (Error (startup_message ?w'))
               | Some (Rejected e) \<Rightarrow> Failed e
               | _ \<Rightarrow> Suspended)"
    using r by blast
  show "?res = Failed (Error (startup_message ?w'))" if c: "CbExit \<in> set (fst (on_requestExit s))"
  proof -
    have "pstates (drain ?w2) ?q = Some (Fulfilled Undefined)"
      using s b c by (intro exit_confirms) simp_all
    then have "await_exit ?q (afterwards s) (drain ?w2)
        = (Failed (Error (startupErrorLog (drain ?w2))), drain ?w2)"
      by (rule await_exit_settled)
    then show ?thesis using l2 by (simp add: d logged_message)
  qed
  show "?res = Failed e"
    if c: "CbExit \<notin> set (fst (on_requestExit s))" and t: "snd (on_requestExit s) = Throws e" for e
  proof -
    have r: "on_requestExit s = (fst (on_requestExit s), Throws e)"
      using t by (metis prod.collapse)
    have "exit_failed e ?q ?w2"
      using exit_throws [OF s _ c, of e] b by (subst (1 2) r) simp
    then have "pstates (drain ?w2) ?q = Some (Rejected e)" by (rule exit_failed_drain)
    then have "await_exit ?q (afterwards s) (drain ?w2) = (Failed e, drain ?w2)"
      by (rule await_exit_settled)
    then show ?thesis by (simp add: d)
  qed
qed

theorem C2_witness:
  "snd (on_instantiate quiet) = Returns \<and> snd (on_callMain quiet) = Returns
   \<and> diagnostics (trace (snd (boot 0 [] quiet))) = []
   \<and> DosDirect 0 [] quiet = (Ready, started\<lparr>mod_err := ErrFn\<rparr>)
   \<and> snd (on_instantiate noisy) = Returns \<and> snd (on_callMain noisy) = Returns
   \<and> diagnostics (trace (snd (boot 0 [] noisy))) \<noteq> []
   \<and> CbExit \<in> set (fst (on_requestExit noisy))
   \<and> fst (DosDirect 0 [] noisy) = Failed (Error (startup_message (snd (DosDirect 0 [] noisy))))
   \<and> startup_message (snd (DosDirect 0 [] noisy)) = ''[1]'' @ [CHR 0x0A]
   \<and> fst (DosDirect 0 [] stubborn) = Failed (Error ''abort'')"
proof -
  have q: "snd (on_instantiate quiet) = Returns" "snd (on_callMain quiet) = Returns"
    by (simp_all add: quiet_def)
  have n: "snd (on_instantiate noisy) = Returns" "snd (on_callMain noisy) = Returns"
    "CbExit \<in> set (fst (on_requestExit noisy))"
    by (simp_all add: noisy_def quiet_def)
  have t: "snd (on_instantiate stubborn) = Returns" "snd (on_callMain stubborn) = Returns"
    "CbExit \<notin> set (fst (on_requestExit stubborn))"
    "snd (on_requestExit stubborn) = Throws (Error ''abort'')"
    by (simp_all add: stubborn_def quiet_def)
  have dq: "diagnostics (trace (snd (boot 0 [] quiet))) = []"
    using boot_quiet by (simp add: started_eq)
  have m: "startup_message (snd (DosDirect 0 [] noisy)) = ''[1]'' @ [CHR 0x0A]"
    by (simp add: noisy_def eval_defs drain.simps)
  have dn: "diagnostics (trace (snd (boot 0 [] noisy))) \<noteq> []"
    "diagnostics (trace (snd (boot 0 [] stubborn))) \<noteq> []"
    using boot_noisy by simp_all
  have "DosDirect 0 [] quiet = (Ready, started\<lparr>mod_err := ErrFn\<rparr>)"
    using C2_startup_handshake [OF q, of 0 "[]"] dq by (simp add: started_def)
  moreover have "fst (DosDirect 0 [] noisy)
      = Failed (Error (startup_message (snd (DosDirect 0 [] noisy))))"
    using C2_startup_handshake [OF n(1,2), of 0 "[]"] n(3) dn(1) by blast
  moreover have "fst (DosDirect 0 [] stubborn) = Failed (Error ''abort'')"
    using C2_startup_handshake [OF t(1,2), of 0 "[]"] t(3,4) dn(2) by blast
  ultimately show ?thesis using q n dq m dn(1) by blast
qed

end
